theory Spec2Isabelle
  imports Main "HOL-Library.Char_ord" "HOL-Library.List_Lexorder"
begin

section \<open>Context-window extraction (\<open>extract_with_context\<close>)\<close>

text \<open>
  The source keeps two cursors \<open>start\<close> and \<open>length\<close> (here \<open>len\<close>) and runs five
  \<open>while\<close> loops over them. Each loop is one recursive function below, with the source's
  loop condition as its \<open>if\<close>. Cursors are never negative, so they are naturals; the two
  context sizes are Python integers and stay \<open>int\<close>.
\<close>

text \<open>\<open>while start + length < len(lst) and length < before_context + 1
        and not pred(lst[start + length]): length += 1\<close>\<close>

function extend_to_match :: "'a list \<Rightarrow> ('a \<Rightarrow> bool) \<Rightarrow> int \<Rightarrow> nat \<Rightarrow> nat \<Rightarrow> nat" where
  "extend_to_match lst pred before_context start len =
     (if start + len < length lst \<and> int len < before_context + 1
         \<and> \<not> pred (lst ! (start + len))
      then extend_to_match lst pred before_context start (len + 1)
      else len)"
  by pat_completeness auto
termination
  by (relation "measure (\<lambda>(lst, pred, bc, start, len). length lst - (start + len))") auto

declare extend_to_match.simps [simp del]

text \<open>\<open>while start + length < len(lst) and not pred(lst[start + length]): start += 1\<close>\<close>

function slide_to_match :: "'a list \<Rightarrow> ('a \<Rightarrow> bool) \<Rightarrow> nat \<Rightarrow> nat \<Rightarrow> nat" where
  "slide_to_match lst pred start len =
     (if start + len < length lst \<and> \<not> pred (lst ! (start + len))
      then slide_to_match lst pred (start + 1) len
      else start)"
  by pat_completeness auto
termination
  by (relation "measure (\<lambda>(lst, pred, start, len). length lst - (start + len))") auto

declare slide_to_match.simps [simp del]

text \<open>\<open>while extendlength < after_context + 1 and start + length + extendlength < len(lst)
        and not pred(lst[start + length + extendlength]): extendlength += 1\<close>\<close>

function read_after :: "'a list \<Rightarrow> ('a \<Rightarrow> bool) \<Rightarrow> int \<Rightarrow> nat \<Rightarrow> nat \<Rightarrow> nat \<Rightarrow> nat" where
  "read_after lst pred after_context start len extendlength =
     (if int extendlength < after_context + 1
         \<and> start + len + extendlength < length lst
         \<and> \<not> pred (lst ! (start + len + extendlength))
      then read_after lst pred after_context start len (extendlength + 1)
      else extendlength)"
  by pat_completeness auto
termination
  by (relation "measure (\<lambda>(lst, pred, ac, start, len, e). length lst - (start + len + e))") auto

declare read_after.simps [simp del]

text \<open>\<open>while extendlength < before_context and start + length + extendlength < len(lst)
        and not pred(lst[start + length + extendlength]): extendlength += 1\<close>\<close>

function read_before :: "'a list \<Rightarrow> ('a \<Rightarrow> bool) \<Rightarrow> int \<Rightarrow> nat \<Rightarrow> nat \<Rightarrow> nat \<Rightarrow> nat" where
  "read_before lst pred before_context start len extendlength =
     (if int extendlength < before_context
         \<and> start + len + extendlength < length lst
         \<and> \<not> pred (lst ! (start + len + extendlength))
      then read_before lst pred before_context start len (extendlength + 1)
      else extendlength)"
  by pat_completeness auto
termination
  by (relation "measure (\<lambda>(lst, pred, bc, start, len, e). length lst - (start + len + e))") auto

declare read_before.simps [simp del]

lemma read_after_ge: "extendlength \<le> read_after lst pred ac start len extendlength"
proof (induction lst pred ac start len extendlength rule: read_after.induct)
  case (1 lst pred ac start len e)
  show ?case
    using "1.IH" by (subst read_after.simps) (auto simp del: of_nat_Suc)
qed

lemma read_after_bound:
  "start + len + extendlength \<le> length lst \<Longrightarrow>
   start + len + read_after lst pred ac start len extendlength \<le> length lst"
proof (induction lst pred ac start len extendlength rule: read_after.induct)
  case (1 lst pred ac start len e)
  show ?case
    using "1.IH" "1.prems" by (subst read_after.simps) (auto simp del: of_nat_Suc)
qed

lemma read_before_ge: "extendlength \<le> read_before lst pred bc start len extendlength"
proof (induction lst pred bc start len extendlength rule: read_before.induct)
  case (1 lst pred bc start len e)
  show ?case
    using "1.IH" by (subst read_before.simps) (auto simp del: of_nat_Suc)
qed

text \<open>
  The third loop, \<open>while start + length < len(lst) and pred(lst[start + length])\<close>: read the
  trailing context, then look ahead for the leading context of a following match and absorb
  it if there is one.
\<close>

function extend_window :: "'a list \<Rightarrow> ('a \<Rightarrow> bool) \<Rightarrow> int \<Rightarrow> int \<Rightarrow> nat \<Rightarrow> nat \<Rightarrow> nat" where
  "extend_window lst pred before_context after_context start len =
     (if start + len < length lst \<and> pred (lst ! (start + len))
      then
        (let len1 = len + read_after lst pred after_context start len 1
         in if start + len1 < length lst \<and> \<not> pred (lst ! (start + len1))
            then
              (let extendlength = read_before lst pred before_context start len1 1
               in if start + len1 + extendlength < length lst
                     \<and> pred (lst ! (start + len1 + extendlength))
                  then extend_window lst pred before_context after_context start
                         (len1 + extendlength)
                  else extend_window lst pred before_context after_context start len1)
            else extend_window lst pred before_context after_context start len1)
      else len)"
  by pat_completeness auto
termination
proof (relation "measure (\<lambda>(lst, pred, bc, ac, start, len). length lst - (start + len))",
       goal_cases)
  case 1
  show ?case by simp
next
  case (2 lst pred bc ac start len len1 e)
  have "1 \<le> read_after lst pred ac start len 1" by (rule read_after_ge)
  moreover have "1 \<le> read_before lst pred bc start len1 1" by (rule read_before_ge)
  ultimately show ?case using 2 by auto
next
  case (3 lst pred bc ac start len len1 e)
  have "1 \<le> read_after lst pred ac start len 1" by (rule read_after_ge)
  then show ?case using 3 by auto
next
  case (4 lst pred bc ac start len len1)
  have "1 \<le> read_after lst pred ac start len 1" by (rule read_after_ge)
  then show ?case using 4 by auto
qed

declare extend_window.simps [simp del]


subsection \<open>Facts about the inner loops, needed for the outer loop to terminate\<close>

lemma extend_to_match_ge: "len \<le> extend_to_match lst pred bc start len"
proof (induction lst pred bc start len rule: extend_to_match.induct)
  case (1 lst pred bc start len)
  show ?case
    using "1.IH" by (subst extend_to_match.simps) (auto simp del: of_nat_Suc)
qed

lemma extend_to_match_bound:
  "start + len \<le> length lst \<Longrightarrow> start + extend_to_match lst pred bc start len \<le> length lst"
proof (induction lst pred bc start len rule: extend_to_match.induct)
  case (1 lst pred bc start len)
  show ?case
    using "1.IH" "1.prems" by (subst extend_to_match.simps) (auto simp del: of_nat_Suc)
qed

lemma slide_to_match_ge: "start \<le> slide_to_match lst pred start len"
proof (induction lst pred start len rule: slide_to_match.induct)
  case (1 lst pred start len)
  show ?case
    using "1.IH" by (subst slide_to_match.simps) auto
qed

lemma slide_to_match_bound:
  "start + len \<le> length lst \<Longrightarrow> slide_to_match lst pred start len + len \<le> length lst"
proof (induction lst pred start len rule: slide_to_match.induct)
  case (1 lst pred start len)
  show ?case
    using "1.IH" "1.prems" by (subst slide_to_match.simps) auto
qed

lemma slide_to_match_stops:
  "slide_to_match lst pred start len + len < length lst \<Longrightarrow>
   pred (lst ! (slide_to_match lst pred start len + len))"
proof (induction lst pred start len rule: slide_to_match.induct)
  case (1 lst pred start len)
  show ?case
  proof (cases "start + len < length lst \<and> \<not> pred (lst ! (start + len))")
    case True
    then have eq: "slide_to_match lst pred start len = slide_to_match lst pred (start + 1) len"
      by (subst slide_to_match.simps) auto
    show ?thesis using "1.IH" [OF True] "1.prems" unfolding eq by simp
  next
    case False
    then have eq: "slide_to_match lst pred start len = start"
      by (subst slide_to_match.simps) auto
    show ?thesis using False "1.prems" unfolding eq by simp
  qed
qed

lemma extend_window_unfold:
  assumes "len1 = len + read_after lst pred ac start len 1"
    and "e = read_before lst pred bc start len1 1"
  shows "extend_window lst pred bc ac start len =
     (if start + len < length lst \<and> pred (lst ! (start + len))
      then if start + len1 < length lst \<and> \<not> pred (lst ! (start + len1))
           then if start + len1 + e < length lst \<and> pred (lst ! (start + len1 + e))
                then extend_window lst pred bc ac start (len1 + e)
                else extend_window lst pred bc ac start len1
           else extend_window lst pred bc ac start len1
      else len)"
  unfolding assms by (subst extend_window.simps) (simp add: Let_def)

lemma extend_window_ge: "len \<le> extend_window lst pred bc ac start len"
proof (induction lst pred bc ac start len rule: extend_window.induct)
  case (1 lst pred bc ac start len)
  define len1 where "len1 = len + read_after lst pred ac start len 1"
  define e where "e = read_before lst pred bc start len1 1"
  note unf = extend_window_unfold [OF len1_def e_def]
  have a: "len \<le> len1" by (simp add: len1_def)
  show ?case
  proof (cases "start + len < length lst \<and> pred (lst ! (start + len))")
    case False
    then have "extend_window lst pred bc ac start len = len"
      by (auto simp: unf)
    then show ?thesis by simp
  next
    case c1: True
    show ?thesis
    proof (cases "start + len1 < length lst \<and> \<not> pred (lst ! (start + len1))")
      case False
      have eq: "extend_window lst pred bc ac start len = extend_window lst pred bc ac start len1"
        using c1 False by (auto simp: unf)
      have "len1 \<le> extend_window lst pred bc ac start len1"
        using "1.IH"(3) [OF c1 len1_def False] .
      then show ?thesis unfolding eq using a by simp
    next
      case c2: True
      show ?thesis
      proof (cases "start + len1 + e < length lst \<and> pred (lst ! (start + len1 + e))")
        case c3: True
        have eq: "extend_window lst pred bc ac start len
                    = extend_window lst pred bc ac start (len1 + e)"
          using c1 c2 c3 by (auto simp: unf)
        have "len1 + e \<le> extend_window lst pred bc ac start (len1 + e)"
          using "1.IH"(1) [OF c1 len1_def c2 e_def c3] .
        then show ?thesis unfolding eq using a by simp
      next
        case False
        have eq: "extend_window lst pred bc ac start len = extend_window lst pred bc ac start len1"
          using c1 c2 False by (auto simp: unf)
        have "len1 \<le> extend_window lst pred bc ac start len1"
          using "1.IH"(2) [OF c1 len1_def c2 e_def False] .
        then show ?thesis unfolding eq using a by simp
      qed
    qed
  qed
qed

lemma extend_window_gt:
  assumes "start + len < length lst" and "pred (lst ! (start + len))"
  shows "len < extend_window lst pred bc ac start len"
proof -
  define len1 where "len1 = len + read_after lst pred ac start len 1"
  define e where "e = read_before lst pred bc start len1 1"
  have a: "len < len1"
    using read_after_ge [of 1 lst pred ac start len] by (simp add: len1_def)
  have "extend_window lst pred bc ac start len = extend_window lst pred bc ac start len1
      \<or> extend_window lst pred bc ac start len = extend_window lst pred bc ac start (len1 + e)"
    using assms by (simp add: extend_window_unfold [OF len1_def e_def])
  moreover have "len1 \<le> extend_window lst pred bc ac start len1"
    by (rule extend_window_ge)
  moreover have "len1 + e \<le> extend_window lst pred bc ac start (len1 + e)"
    by (rule extend_window_ge)
  ultimately show ?thesis using a by auto
qed

lemma extend_window_bound:
  "start + len \<le> length lst \<Longrightarrow> start + extend_window lst pred bc ac start len \<le> length lst"
proof (induction lst pred bc ac start len rule: extend_window.induct)
  case (1 lst pred bc ac start len)
  define len1 where "len1 = len + read_after lst pred ac start len 1"
  define e where "e = read_before lst pred bc start len1 1"
  note unf = extend_window_unfold [OF len1_def e_def]
  show ?case
  proof (cases "start + len < length lst \<and> pred (lst ! (start + len))")
    case False
    then have "extend_window lst pred bc ac start len = len"
      by (auto simp: unf)
    then show ?thesis using "1.prems" by simp
  next
    case c1: True
    have b1: "start + len1 \<le> length lst"
      using read_after_bound [of start len 1 lst pred ac] c1 by (simp add: len1_def)
    show ?thesis
    proof (cases "start + len1 < length lst \<and> \<not> pred (lst ! (start + len1))")
      case False
      have eq: "extend_window lst pred bc ac start len = extend_window lst pred bc ac start len1"
        using c1 False by (auto simp: unf)
      show ?thesis
        unfolding eq using "1.IH"(3) [OF c1 len1_def False b1] .
    next
      case c2: True
      show ?thesis
      proof (cases "start + len1 + e < length lst \<and> pred (lst ! (start + len1 + e))")
        case c3: True
        have eq: "extend_window lst pred bc ac start len
                    = extend_window lst pred bc ac start (len1 + e)"
          using c1 c2 c3 by (auto simp: unf)
        have "start + (len1 + e) \<le> length lst" using c3 by simp
        then show ?thesis
          unfolding eq using "1.IH"(1) [OF c1 len1_def c2 e_def c3] by simp
      next
        case False
        have eq: "extend_window lst pred bc ac start len = extend_window lst pred bc ac start len1"
          using c1 c2 False by (auto simp: unf)
        show ?thesis
          unfolding eq using "1.IH"(2) [OF c1 len1_def c2 e_def False b1] .
      qed
    qed
  qed
qed

text \<open>
  The outer loop \<open>while start < len(lst)\<close>. Every iteration begins with \<open>length = 0\<close> (the
  source resets it at the end of the body), so only \<open>start\<close> is carried. The loop returns
  the cursor pairs \<open>(start, length)\<close> of the windows in the order the source appends them;
  \<open>extract_with_context\<close> below turns each pair into the appended tuple.
\<close>

function windows_from :: "'a list \<Rightarrow> ('a \<Rightarrow> bool) \<Rightarrow> int \<Rightarrow> int \<Rightarrow> nat \<Rightarrow> (nat \<times> nat) list" where
  "windows_from lst pred before_context after_context start =
     (if start < length lst
      then
        (let len0 = extend_to_match lst pred before_context start 0;
             start1 = slide_to_match lst pred start len0
         in if start1 + len0 = length lst
            then []
            else
              (let len1 = extend_window lst pred before_context after_context start1 len0
               in (if len1 > 0 \<and> start1 + len1 \<le> length lst then [(start1, len1)] else [])
                  @ windows_from lst pred before_context after_context (start1 + len1)))
      else [])"
  by pat_completeness auto
termination
proof (relation "measure (\<lambda>(lst, pred, bc, ac, start). length lst - start)", goal_cases)
  case 1
  show ?case by simp
next
  case (2 lst pred bc ac start len0 start1 len1)
  have b0: "start + len0 \<le> length lst"
    using extend_to_match_bound [of start 0 lst pred bc] 2 by simp
  have b1: "start1 + len0 \<le> length lst"
    using slide_to_match_bound [OF b0, of pred] 2 by simp
  with 2 have lt: "start1 + len0 < length lst" by simp
  have "pred (lst ! (start1 + len0))"
    using slide_to_match_stops [of lst pred start len0] lt 2 by simp
  then have "len0 < len1"
    using extend_window_gt [OF lt, of pred bc ac] 2 by simp
  moreover have "start \<le> start1"
    using slide_to_match_ge [of start lst pred len0] 2 by simp
  ultimately show ?case using 2 by simp
qed

declare windows_from.simps [simp del]

text \<open>
  \<open>rval.append((lst[start:start + length], usedfirst, usedlast))\<close> with
  \<open>usedfirst = (start == 0)\<close> and \<open>usedlast = (start + length == len(lst))\<close>.
\<close>

definition window_tuple :: "'a list \<Rightarrow> nat \<times> nat \<Rightarrow> 'a list \<times> bool \<times> bool" where
  "window_tuple lst w =
     (case w of (start, len) \<Rightarrow>
        (take len (drop start lst), start = 0, start + len = length lst))"

definition extract_with_context ::
  "'a list \<Rightarrow> ('a \<Rightarrow> bool) \<Rightarrow> int \<Rightarrow> int \<Rightarrow> ('a list \<times> bool \<times> bool) list" where
  "extract_with_context lst pred before_context after_context =
     map (window_tuple lst) (windows_from lst pred before_context after_context 0)"


subsection \<open>What the windows cover\<close>

text \<open>Index \<open>i\<close> lies in the window \<open>(start, length)\<close>, the half-open range
  \<open>[start, start + length)\<close>.\<close>

definition in_window :: "nat \<times> nat \<Rightarrow> nat \<Rightarrow> bool" where
  "in_window w i = (fst w \<le> i \<and> i < fst w + snd w)"

text \<open>
  \<open>covers_from lst pred lo ws\<close>: the windows \<open>ws\<close> lie at or after index \<open>lo\<close>, in order and
  without overlap, inside the list; each holds a line satisfying \<open>pred\<close>, and no line from
  \<open>lo\<close> on that is outside all of them satisfies \<open>pred\<close>.
\<close>

fun covers_from :: "'a list \<Rightarrow> ('a \<Rightarrow> bool) \<Rightarrow> nat \<Rightarrow> (nat \<times> nat) list \<Rightarrow> bool" where
  "covers_from lst pred lo [] = (\<forall>i \<in> {lo ..< length lst}. \<not> pred (lst ! i))"
| "covers_from lst pred lo (w # ws) =
     (lo \<le> fst w \<and> 0 < snd w \<and> fst w + snd w \<le> length lst
      \<and> (\<forall>i \<in> {lo ..< fst w}. \<not> pred (lst ! i))
      \<and> (\<exists>i \<in> {fst w ..< fst w + snd w}. pred (lst ! i))
      \<and> covers_from lst pred (fst w + snd w) ws)"

lemma extend_to_match_nopred:
  "start + len \<le> i \<Longrightarrow> i < start + extend_to_match lst pred bc start len \<Longrightarrow> \<not> pred (lst ! i)"
proof (induction lst pred bc start len rule: extend_to_match.induct)
  case (1 lst pred bc start len)
  show ?case
  proof (cases "start + len < length lst \<and> int len < bc + 1 \<and> \<not> pred (lst ! (start + len))")
    case True
    then have eq: "extend_to_match lst pred bc start len
                 = extend_to_match lst pred bc start (len + 1)"
      by (subst extend_to_match.simps) auto
    show ?thesis
    proof (cases "i = start + len")
      case True
      with \<open>start + len < length lst \<and> int len < bc + 1 \<and> \<not> pred (lst ! (start + len))\<close>
      show ?thesis by simp
    next
      case False
      with "1.prems" have "start + (len + 1) \<le> i" by simp
      moreover have "i < start + extend_to_match lst pred bc start (len + 1)"
        using "1.prems"(2) unfolding eq .
      ultimately show ?thesis using "1.IH" [OF True] by blast
    qed
  next
    case False
    then have "extend_to_match lst pred bc start len = len"
      by (subst extend_to_match.simps) auto
    with "1.prems" show ?thesis by simp
  qed
qed

lemma slide_to_match_nopred:
  "start + len \<le> i \<Longrightarrow> i < slide_to_match lst pred start len + len \<Longrightarrow> \<not> pred (lst ! i)"
proof (induction lst pred start len rule: slide_to_match.induct)
  case (1 lst pred start len)
  show ?case
  proof (cases "start + len < length lst \<and> \<not> pred (lst ! (start + len))")
    case True
    then have eq: "slide_to_match lst pred start len = slide_to_match lst pred (start + 1) len"
      by (subst slide_to_match.simps) auto
    show ?thesis
    proof (cases "i = start + len")
      case True
      with \<open>start + len < length lst \<and> \<not> pred (lst ! (start + len))\<close> show ?thesis by simp
    next
      case False
      with "1.prems" have "start + 1 + len \<le> i" by simp
      moreover have "i < slide_to_match lst pred (start + 1) len + len"
        using "1.prems"(2) unfolding eq .
      ultimately show ?thesis using "1.IH" [OF True] by blast
    qed
  next
    case False
    then have "slide_to_match lst pred start len = start"
      by (subst slide_to_match.simps) auto
    with "1.prems" show ?thesis by simp
  qed
qed

lemma windows_from_covers: "covers_from lst pred start (windows_from lst pred bc ac start)"
proof (induction lst pred bc ac start rule: windows_from.induct)
  case (1 lst pred bc ac start)
  define len0 where "len0 = extend_to_match lst pred bc start 0"
  define start1 where "start1 = slide_to_match lst pred start len0"
  define len1 where "len1 = extend_window lst pred bc ac start1 len0"
  show ?case
  proof (cases "start < length lst")
    case False
    then have "windows_from lst pred bc ac start = []"
      by (subst windows_from.simps) simp
    with False show ?thesis by simp
  next
    case True
    have b0: "start + len0 \<le> length lst"
      using extend_to_match_bound [of start 0 lst pred bc] True by (simp add: len0_def)
    have b1: "start1 + len0 \<le> length lst"
      using slide_to_match_bound [OF b0, of pred] by (simp add: start1_def)
    have ge: "start \<le> start1"
      using slide_to_match_ge [of start lst pred len0] by (simp add: start1_def)
    have np: "\<not> pred (lst ! i)" if "start \<le> i" "i < start1 + len0" for i
    proof (cases "i < start + len0")
      case True
      then show ?thesis
        using extend_to_match_nopred [of start 0 i lst pred bc] that by (simp add: len0_def)
    next
      case False
      then show ?thesis
        using slide_to_match_nopred [of start len0 i lst pred] that by (simp add: start1_def)
    qed
    show ?thesis
    proof (cases "start1 + len0 = length lst")
      case stop: True
      have "windows_from lst pred bc ac start = []"
        using True stop
        by (subst windows_from.simps) (simp add: Let_def len0_def start1_def)
      moreover have "\<forall>i \<in> {start ..< length lst}. \<not> pred (lst ! i)"
        using np stop by simp
      ultimately show ?thesis by simp
    next
      case go: False
      with b1 have lt: "start1 + len0 < length lst" by simp
      have hit: "pred (lst ! (start1 + len0))"
        using slide_to_match_stops [of lst pred start len0] lt by (simp add: start1_def)
      have gt: "len0 < len1"
        using extend_window_gt [of start1 len0 lst pred bc ac] lt hit by (simp add: len1_def)
      have b2: "start1 + len1 \<le> length lst"
        using extend_window_bound [OF b1, of pred bc ac] by (simp add: len1_def)
      have eq: "windows_from lst pred bc ac start
              = (start1, len1) # windows_from lst pred bc ac (start1 + len1)"
        using True go gt b2
        by (subst windows_from.simps) (simp add: Let_def len0_def start1_def len1_def)
      have rest: "covers_from lst pred (start1 + len1) (windows_from lst pred bc ac (start1 + len1))"
        using "1.IH" [OF True len0_def start1_def go len1_def] .
      have "\<forall>i \<in> {start ..< start1}. \<not> pred (lst ! i)"
        using np by simp
      moreover have "\<exists>i \<in> {start1 ..< start1 + len1}. pred (lst ! i)"
        using hit gt by (intro bexI [of _ "start1 + len0"]) simp_all
      ultimately show ?thesis
        unfolding eq using ge gt b2 rest by simp
    qed
  qed
qed

lemma covers_from_each:
  "covers_from lst pred lo ws \<Longrightarrow> w \<in> set ws \<Longrightarrow>
   lo \<le> fst w \<and> 0 < snd w \<and> fst w + snd w \<le> length lst \<and> (\<exists>i. in_window w i \<and> pred (lst ! i))"
proof (induction ws arbitrary: lo)
  case Nil
  then show ?case by simp
next
  case (Cons v ws)
  show ?case
  proof (cases "w = v")
    case True
    with Cons.prems(1) show ?thesis by (auto simp: in_window_def)
  next
    case False
    with Cons.prems have "w \<in> set ws" and "covers_from lst pred (fst v + snd v) ws" by simp_all
    from Cons.IH [OF this(2) this(1)] Cons.prems(1) show ?thesis by auto
  qed
qed

lemma covers_from_ordered:
  "covers_from lst pred lo ws \<Longrightarrow> j < length ws \<Longrightarrow> k < j \<Longrightarrow>
   fst (ws ! k) + snd (ws ! k) \<le> fst (ws ! j)"
proof (induction ws arbitrary: lo j k)
  case Nil
  then show ?case by simp
next
  case (Cons v ws)
  from Cons.prems obtain j' where j: "j = Suc j'" and j': "j' < length ws"
    by (cases j) auto
  have tl: "covers_from lst pred (fst v + snd v) ws" using Cons.prems(1) by simp
  show ?case
  proof (cases k)
    case 0
    have "ws ! j' \<in> set ws" using j' by simp
    from covers_from_each [OF tl this] show ?thesis using 0 j by simp
  next
    case (Suc k')
    with Cons.prems j have "k' < j'" by simp
    from Cons.IH [OF tl j' this] show ?thesis using Suc j by simp
  qed
qed

lemma covers_from_hit:
  "covers_from lst pred lo ws \<Longrightarrow> lo \<le> i \<Longrightarrow> i < length lst \<Longrightarrow> pred (lst ! i) \<Longrightarrow>
   \<exists>k < length ws. in_window (ws ! k) i"
proof (induction ws arbitrary: lo)
  case Nil
  then show ?case by auto
next
  case (Cons v ws)
  show ?case
  proof (cases "i < fst v + snd v")
    case True
    have "fst v \<le> i"
    proof (rule ccontr)
      assume "\<not> fst v \<le> i"
      then have "i \<in> {lo ..< fst v}" using Cons.prems(2) by simp
      then show False using Cons.prems(1,4) by auto
    qed
    with True have "in_window ((v # ws) ! 0) i" by (simp add: in_window_def)
    then show ?thesis by blast
  next
    case False
    then have "fst v + snd v \<le> i" by simp
    moreover have "covers_from lst pred (fst v + snd v) ws" using Cons.prems(1) by simp
    ultimately obtain k where "k < length ws" "in_window (ws ! k) i"
      using Cons.IH Cons.prems(3,4) by blast
    then have "Suc k < length (v # ws) \<and> in_window ((v # ws) ! Suc k) i" by simp
    then show ?thesis by blast
  qed
qed



subsection \<open>The returned slices\<close>

text \<open>
  \<open>weave gaps slices\<close> alternates the two lists, a gap first and a gap last:
  \<open>g0 @ w0 @ g1 @ w1 @ ... @ gn\<close>.
\<close>

fun weave :: "'a list list \<Rightarrow> 'a list list \<Rightarrow> 'a list" where
  "weave (g # gs) (w # ws) = g @ w @ weave gs ws"
| "weave (g # gs) [] = g"
| "weave [] ws = []"

lemma drop_split3:
  assumes "lo \<le> s" and "s + l \<le> length lst"
  shows "drop lo lst = take (s - lo) (drop lo lst) @ take l (drop s lst) @ drop (s + l) lst"
proof -
  have a: "drop (s - lo) (drop lo lst) = drop s lst" using assms(1) by simp
  have b: "drop l (drop s lst) = drop (s + l) lst" by (simp add: add.commute)
  have "drop lo lst = take (s - lo) (drop lo lst) @ drop (s - lo) (drop lo lst)"
    by (rule append_take_drop_id [symmetric])
  also have "\<dots> = take (s - lo) (drop lo lst) @ drop s lst" unfolding a ..
  also have "drop s lst = take l (drop s lst) @ drop l (drop s lst)"
    by (rule append_take_drop_id [symmetric])
  finally show ?thesis unfolding b .
qed

lemma nopred_range:
  assumes "\<forall>i \<in> {a ..< b}. \<not> pred (lst ! i)" and "b \<le> length lst"
    and "x \<in> set (take (b - a) (drop a lst))"
  shows "\<not> pred x"
proof -
  from assms(3) obtain j where j: "j < length (take (b - a) (drop a lst))"
      "x = take (b - a) (drop a lst) ! j"
    by (auto simp: in_set_conv_nth)
  then have "j < b - a" "a + j < length lst" using assms(2) by auto
  with j have "x = lst ! (a + j)" by simp
  moreover have "a + j \<in> {a ..< b}" using \<open>j < b - a\<close> by simp
  ultimately show ?thesis using assms(1) by blast
qed

lemma slice_has_pred:
  assumes "\<exists>i \<in> {s ..< s + l}. pred (lst ! i)" and "s + l \<le> length lst"
  shows "\<exists>x \<in> set (take l (drop s lst)). pred x"
proof -
  from assms(1) obtain i where i: "s \<le> i" "i < s + l" "pred (lst ! i)" by auto
  have "i - s < length (take l (drop s lst))" using i assms(2) by simp
  moreover have "take l (drop s lst) ! (i - s) = lst ! i" using i assms(2) by simp
  ultimately have "lst ! i \<in> set (take l (drop s lst))"
    by (metis nth_mem)
  with i(3) show ?thesis by blast
qed

lemma covers_from_weave:
  "covers_from lst pred lo ws \<Longrightarrow>
   \<exists>gaps. length gaps = Suc (length ws) \<and> (\<forall>g \<in> set gaps. \<forall>x \<in> set g. \<not> pred x)
     \<and> drop lo lst = weave gaps (map (\<lambda>w. take (snd w) (drop (fst w) lst)) ws)"
proof (induction ws arbitrary: lo)
  case Nil
  then have a: "\<forall>i \<in> {lo ..< length lst}. \<not> pred (lst ! i)" by simp
  have "\<forall>x \<in> set (drop lo lst). \<not> pred x"
    using nopred_range [OF a, of _] by simp
  then have "length [drop lo lst] = Suc (length ([] :: (nat \<times> nat) list))
      \<and> (\<forall>g \<in> set [drop lo lst]. \<forall>x \<in> set g. \<not> pred x)
      \<and> drop lo lst = weave [drop lo lst] (map (\<lambda>w. take (snd w) (drop (fst w) lst)) [])"
    by simp
  then show ?case by blast
next
  case (Cons w ws)
  from Cons.prems have c: "lo \<le> fst w" "0 < snd w" "fst w + snd w \<le> length lst"
      "\<forall>i \<in> {lo ..< fst w}. \<not> pred (lst ! i)"
      "covers_from lst pred (fst w + snd w) ws"
    by simp_all
  from Cons.IH [OF c(5)] obtain gaps where g: "length gaps = Suc (length ws)"
      "\<forall>g \<in> set gaps. \<forall>x \<in> set g. \<not> pred x"
      "drop (fst w + snd w) lst = weave gaps (map (\<lambda>w. take (snd w) (drop (fst w) lst)) ws)"
    by blast
  define g0 where "g0 = take (fst w - lo) (drop lo lst)"
  have "fst w \<le> length lst" using c(3) by simp
  then have g0: "\<forall>x \<in> set g0. \<not> pred x"
    unfolding g0_def using nopred_range [OF c(4)] by blast
  have "drop lo lst = g0 @ take (snd w) (drop (fst w) lst) @ drop (fst w + snd w) lst"
    unfolding g0_def by (rule drop_split3 [OF c(1) c(3)])
  then have "drop lo lst = weave (g0 # gaps) (map (\<lambda>w. take (snd w) (drop (fst w) lst)) (w # ws))"
    using g(3) by simp
  moreover have "length (g0 # gaps) = Suc (length (w # ws))" using g(1) by simp
  moreover have "\<forall>g \<in> set (g0 # gaps). \<forall>x \<in> set g. \<not> pred x" using g0 g(2) by simp
  ultimately show ?case by blast
qed

lemma covers_from_slices:
  assumes "covers_from lst pred lo ws" and "w \<in> set ws"
  shows "take (snd w) (drop (fst w) lst) \<noteq> [] \<and> (\<exists>x \<in> set (take (snd w) (drop (fst w) lst)). pred x)"
proof -
  from covers_from_each [OF assms] obtain i where
    b: "fst w + snd w \<le> length lst" and "in_window w i" "pred (lst ! i)" by blast
  then have "\<exists>i \<in> {fst w ..< fst w + snd w}. pred (lst ! i)"
    by (auto simp: in_window_def)
  from slice_has_pred [OF this b] obtain x where
    "x \<in> set (take (snd w) (drop (fst w) lst))" "pred x" by blast
  then show ?thesis by (metis empty_iff list.set(1))
qed


section \<open>The HTML chunker (\<open>HTMLChunker\<close>)\<close>

text \<open>
  Text is modelled as Isabelle strings: a character is a code point below 256. The
  character tests of Python (\<open>str.isspace\<close>, \<open>str.isdigit\<close>) are written out on that range.
  The tokenizer is Python's \<open>html.parser.HTMLParser\<close>, which is not part of this program;
  the model starts at the handler calls it makes, one \<open>event\<close> per call.
\<close>

datatype py_error = IndexError | ValueError

text \<open>Running a failing step raises, and the exception ends the parse.\<close>

definition bind_err :: "py_error + 'a \<Rightarrow> ('a \<Rightarrow> py_error + 'b) \<Rightarrow> py_error + 'b" where
  "bind_err m f = (case m of Inl e \<Rightarrow> Inl e | Inr x \<Rightarrow> f x)"

text \<open>\<open>xs[-1]\<close>\<close>

definition py_last :: "'a list \<Rightarrow> py_error + 'a" where
  "py_last xs = (if xs = [] then Inl IndexError else Inr (last xs))"

text \<open>\<open>xss[-1].append(x)\<close>\<close>

definition append_to_last :: "'a list list \<Rightarrow> 'a \<Rightarrow> py_error + 'a list list" where
  "append_to_last xss x =
     (if xss = [] then Inl IndexError else Inr (butlast xss @ [last xss @ [x]]))"

text \<open>
  \<open>Chunk.markup\<close> is \<open>None\<close>, a pair \<open>(style, text)\<close> or a bare string; \<open>Chunk.url\<close> is a
  string or \<open>None\<close>.
\<close>

datatype markup = NoMarkup | Styled string string | Literal string

datatype chunk = Chunk (markup: markup) (url: "string option")

definition isspace :: "char \<Rightarrow> bool" where
  "isspace c = (c \<in> set [CHR 0x09, CHR 0x0A, CHR 0x0B, CHR 0x0C, CHR 0x0D, CHR 0x1C, CHR 0x1D,
                         CHR 0x1E, CHR 0x1F, CHR 0x20, CHR 0x85, CHR 0xA0])"

definition isdigit :: "char \<Rightarrow> bool" where
  "isdigit c = (c \<in> set (''0123456789'' @ [CHR 0xB2, CHR 0xB3, CHR 0xB9]))"

text \<open>\<open>len(tag) == 2 and tag[0] == 'h' and tag[1].isdigit()\<close>\<close>

definition isheadertag :: "string \<Rightarrow> bool" where
  "isheadertag tag = (length tag = 2 \<and> tag ! 0 = CHR ''h'' \<and> isdigit (tag ! 1))"

text \<open>\<open>data.split()\<close>: the maximal runs of non-whitespace characters.\<close>

fun split_ws :: "string \<Rightarrow> string \<Rightarrow> string list" where
  "split_ws [] cur = (if cur = [] then [] else [cur])"
| "split_ws (c # cs) cur =
     (if isspace c then (if cur = [] then split_ws cs [] else cur # split_ws cs [])
      else split_ws cs (cur @ [c]))"

definition py_split :: "string \<Rightarrow> string list" where
  "py_split data = split_ws data []"

text \<open>\<open>sep.join(xs)\<close>\<close>

fun join :: "string \<Rightarrow> string list \<Rightarrow> string" where
  "join sep [] = []"
| "join sep [x] = x"
| "join sep (x # y # ys) = x @ sep @ join sep (y # ys)"

text \<open>\<open>"%2d" % n\<close> for a counter that is never negative.\<close>

function decimal :: "nat \<Rightarrow> string" where
  "decimal n = (if n < 10 then [''0123456789'' ! n]
                else decimal (n div 10) @ [''0123456789'' ! (n mod 10)])"
  by pat_completeness auto
termination
  by (relation "measure id") auto

declare decimal.simps [simp del]

definition format_2d :: "nat \<Rightarrow> string" where
  "format_2d n = replicate (2 - length (decimal n)) CHR '' '' @ decimal n"

text \<open>
  The parser state. The stacks are Python lists: \<open>append\<close> adds at the end, \<open>[-1]\<close> reads the
  end and \<open>del [-1]\<close> removes it. A style entry is a set of style names. A list entry is
  \<open>(tag, counter)\<close>.
\<close>

record html_chunker =
  rval :: "chunk list list"
  at_para_start :: bool
  trailing_space :: bool
  style_stack :: "string set list"
  anchor_stack :: "string option list"
  list_stack :: "(string \<times> nat) list"
  in_style_or_script :: bool

definition HTMLChunker_init :: html_chunker where
  "HTMLChunker_init =
     \<lparr>rval = [], at_para_start = True, trailing_space = False, style_stack = [{}],
      anchor_stack = [None], list_stack = [], in_style_or_script = False\<rparr>"

definition tag_styles :: "string \<Rightarrow> string option" where
  "tag_styles = map_of [(''b'', ''bold''), (''i'', ''italic'')]"

definition ul_tags :: "string list" where
  "ul_tags = [''*'', ''+'', ''-'']"

definition cur_url :: "html_chunker \<Rightarrow> py_error + string option" where
  "cur_url s = py_last (anchor_stack s)"

definition add_chunk :: "chunk \<Rightarrow> html_chunker \<Rightarrow> py_error + html_chunker" where
  "add_chunk chunk s =
     bind_err
       (if at_para_start s then Inr (rval s @ [[]])
        else if trailing_space s
        then bind_err (cur_url s) (\<lambda>u. append_to_last (rval s) (Chunk (Literal '' '') u))
        else Inr (rval s))
       (\<lambda>r1. bind_err (append_to_last r1 chunk)
          (\<lambda>r2. Inr (s\<lparr>rval := r2, at_para_start := False, trailing_space := False\<rparr>)))"

definition end_para :: "html_chunker \<Rightarrow> py_error + html_chunker" where
  "end_para s =
     (let s1 = (if at_para_start s then s\<lparr>rval := rval s @ [[]]\<rparr>
                else s\<lparr>at_para_start := True\<rparr>);
          s2 = s1\<lparr>trailing_space := False\<rparr>
      in if list_stack s2 \<noteq> []
         then bind_err (cur_url s2)
                (\<lambda>u. add_chunk
                   (Chunk (Literal (replicate (3 * length (list_stack s2)) CHR '' '')) u) s2)
         else Inr s2)"

definition end_list_para :: "html_chunker \<Rightarrow> py_error + html_chunker" where
  "end_list_para s =
     (let s1 = (if at_para_start s then s\<lparr>rval := rval s @ [[]]\<rparr> else s)
      in if list_stack s1 \<noteq> []
         then
           (let tag = fst (last (list_stack s1))
            in if tag = ''ul''
               then
                 (let depth = length (filter (\<lambda>t. fst t = tag) (list_stack s1))
                  in bind_err (cur_url s1)
                       (\<lambda>u. add_chunk
                          (Chunk (Literal (ul_tags ! (depth mod length ul_tags) @ ''  '')) u) s1))
               else
                 (let counter = snd (last (list_stack s1));
                      s2 = s1\<lparr>list_stack := butlast (list_stack s1) @ [(tag, counter + 1)]\<rparr>
                  in bind_err (cur_url s2)
                       (\<lambda>u. add_chunk (Chunk (Literal (format_2d counter @ ''.'')) u) s2)))
         else end_para s1)"

text \<open>An attribute list as the tokenizer gives it: the value is \<open>None\<close> for an attribute
  written without one.\<close>

type_synonym attrs = "(string \<times> string option) list"

fun findattr :: "attrs \<Rightarrow> string \<Rightarrow> string option" where
  "findattr [] searchattr = None"
| "findattr ((attr, val) # rest) searchattr =
     (if attr = searchattr then val else findattr rest searchattr)"

definition handle_data :: "string \<Rightarrow> html_chunker \<Rightarrow> py_error + html_chunker" where
  "handle_data data s =
     (if in_style_or_script s then Inr s
      else
        (let future_trailing_space = (data \<noteq> [] \<and> isspace (last data));
             s1 = (if data \<noteq> [] \<and> isspace (hd data) then s\<lparr>trailing_space := True\<rparr> else s);
             data1 = join '' '' (py_split data)
         in bind_err (py_last (anchor_stack s1)) (\<lambda>a.
            bind_err (py_last (style_stack s1)) (\<lambda>styles.
              (let style0 = (if a = None then ''msgtext'' else ''anchor'');
                   style = (if styles \<noteq> {}
                            then style0 @ '':'' @ concat (sorted_list_of_set styles)
                            else style0)
               in bind_err (cur_url s1) (\<lambda>u.
                  bind_err (add_chunk (Chunk (Styled style data1) u) s1) (\<lambda>s2.
                    Inr (s2\<lparr>trailing_space := future_trailing_space\<rparr>))))))))"

text \<open>\<open>src.startswith(('http://', 'https://'))\<close>\<close>

definition starts_http :: "string \<Rightarrow> bool" where
  "starts_http src = (take 7 src = ''http://'' \<or> take 8 src = ''https://'')"

definition handle_starttag :: "string \<Rightarrow> attrs \<Rightarrow> html_chunker \<Rightarrow> py_error + html_chunker" where
  "handle_starttag tag attrs s =
     (if tag = ''a''
      then Inr (s\<lparr>anchor_stack := anchor_stack s @ [findattr attrs ''href'']\<rparr>)
      else if tag = ''ul'' \<or> tag = ''ol''
      then end_para (s\<lparr>list_stack := list_stack s @ [(tag, 1)]\<rparr>)
      else if tag_styles tag \<noteq> None
      then bind_err (py_last (style_stack s))
             (\<lambda>top. Inr (s\<lparr>style_stack := style_stack s @ [top \<union> {the (tag_styles tag)}]\<rparr>))
      else if isheadertag tag
      then bind_err (py_last (style_stack s))
             (\<lambda>top. Inr (s\<lparr>style_stack := style_stack s @ [top \<union> {''bold''}]\<rparr>))
      else if tag = ''p'' \<or> tag = ''br''
      then end_para s
      else if tag = ''img''
      then
        (let alt = (case findattr attrs ''alt'' of None \<Rightarrow> ''[IMG]'' | Some a \<Rightarrow> a);
             src = (case findattr attrs ''src'' of
                      None \<Rightarrow> None
                    | Some v \<Rightarrow> if \<not> starts_http v then None else Some v)
         in case src of
              Some v \<Rightarrow>
                bind_err (handle_data alt (s\<lparr>anchor_stack := anchor_stack s @ [Some v]\<rparr>))
                  (\<lambda>s1. Inr (s1\<lparr>anchor_stack := butlast (anchor_stack s1)\<rparr>))
            | None \<Rightarrow> handle_data alt s)
      else if tag = ''li''
      then end_list_para s
      else if tag = ''style'' \<or> tag = ''script''
      then Inr (s\<lparr>in_style_or_script := True\<rparr>)
      else Inr s)"

definition handle_startendtag :: "string \<Rightarrow> attrs \<Rightarrow> html_chunker \<Rightarrow> py_error + html_chunker" where
  "handle_startendtag tag attrs s =
     (if tag \<in> {''p'', ''br'', ''li'', ''img''} then handle_starttag tag attrs s else Inr s)"

definition handle_endtag :: "string \<Rightarrow> html_chunker \<Rightarrow> py_error + html_chunker" where
  "handle_endtag tag s =
     (if tag = ''a''
      then Inr (if length (anchor_stack s) > 1
                then s\<lparr>anchor_stack := butlast (anchor_stack s)\<rparr> else s)
      else if tag_styles tag \<noteq> None
      then Inr (if length (style_stack s) > 1
                then s\<lparr>style_stack := butlast (style_stack s)\<rparr> else s)
      else if tag = ''ul'' \<or> tag = ''ol''
      then end_para (if length (list_stack s) > 0
                     then s\<lparr>list_stack := butlast (list_stack s)\<rparr> else s)
      else if isheadertag tag
      then end_para (if length (style_stack s) > 1
                     then s\<lparr>style_stack := butlast (style_stack s)\<rparr> else s)
      else if tag = ''style'' \<or> tag = ''script''
      then Inr (s\<lparr>in_style_or_script := False\<rparr>)
      else Inr s)"

text \<open>
  Python's \<open>int(text, base)\<close> for base 10 and 16: surrounding whitespace is stripped, a sign
  may lead, base 16 accepts a \<open>0x\<close> prefix, and single underscores may separate digits.
  \<open>None\<close> stands for the \<open>ValueError\<close> it raises.
\<close>

fun index_of :: "'a \<Rightarrow> 'a list \<Rightarrow> nat option" where
  "index_of x [] = None"
| "index_of x (y # ys) = (if x = y then Some 0 else map_option Suc (index_of x ys))"

definition digit_val :: "nat \<Rightarrow> char \<Rightarrow> nat option" where
  "digit_val base c =
     (case index_of c ''0123456789abcdef'' of
        Some v \<Rightarrow> if v < base then Some v else None
      | None \<Rightarrow>
          (case index_of c ''ABCDEF'' of
             Some v \<Rightarrow> if v + 10 < base then Some (v + 10) else None
           | None \<Rightarrow> None))"

fun more_digits :: "nat \<Rightarrow> nat \<Rightarrow> string \<Rightarrow> nat option" where
  "more_digits base acc [] = Some acc"
| "more_digits base acc (c # cs) =
     (if c = CHR ''_''
      then (case cs of
              [] \<Rightarrow> None
            | d # ds \<Rightarrow>
                (case digit_val base d of
                   None \<Rightarrow> None
                 | Some v \<Rightarrow> more_digits base (acc * base + v) ds))
      else (case digit_val base c of
              None \<Rightarrow> None
            | Some v \<Rightarrow> more_digits base (acc * base + v) cs))"

definition digits :: "nat \<Rightarrow> string \<Rightarrow> nat option" where
  "digits base text =
     (case text of
        [] \<Rightarrow> None
      | c # cs \<Rightarrow> (case digit_val base c of None \<Rightarrow> None | Some v \<Rightarrow> more_digits base v cs))"

definition py_strip :: "string \<Rightarrow> string" where
  "py_strip text = rev (dropWhile isspace (rev (dropWhile isspace text)))"

definition py_int :: "nat \<Rightarrow> string \<Rightarrow> int option" where
  "py_int base text =
     (let t = py_strip text;
          negative = (t \<noteq> [] \<and> hd t = CHR ''-'');
          t1 = (if t \<noteq> [] \<and> (hd t = CHR ''-'' \<or> hd t = CHR ''+'') then tl t else t);
          t2 = (if base = 16 \<and> (take 2 t1 = ''0x'' \<or> take 2 t1 = ''0X'')
                then (if take 1 (drop 2 t1) = ''_'' then drop 3 t1 else drop 2 t1)
                else t1)
      in case digits base t2 of
           None \<Rightarrow> None
         | Some v \<Rightarrow> Some (if negative then - int v else int v))"

definition extrachars :: "int \<Rightarrow> string option" where
  "extrachars = map_of [(8212, ''--''), (8217, [CHR 0x27]), (8220, ''``''),
                        (8221, [CHR 0x27, CHR 0x27]), (8230, ''...'')]"

text \<open>
  \<open>handle_charref\<close>: \<open>name[0]\<close> raises on the empty name, \<open>int\<close> raises on a name that is
  not a number in the chosen base, and \<open>chr\<close> raises on a negative number.
\<close>

definition handle_charref :: "string \<Rightarrow> html_chunker \<Rightarrow> py_error + html_chunker" where
  "handle_charref name s =
     (if name = [] then Inl IndexError
      else
        (case (if hd name = CHR ''x'' then py_int 16 (tl name) else py_int 10 name) of
           None \<Rightarrow> Inl ValueError
         | Some char \<Rightarrow>
             if char < 128
             then (if char < 0 then Inl ValueError
                   else handle_data [char_of (nat char)] s)
             else (case extrachars char of
                     Some text \<Rightarrow> handle_data text s
                   | None \<Rightarrow> handle_data (''&#'' @ name @ '';'') s)))"

definition entities :: "string \<Rightarrow> string option" where
  "entities = map_of [(''nbsp'', '' ''), (''lt'', ''<''), (''gt'', ''>''), (''amp'', ''&''),
                      (''ldquo'', ''``''), (''rdquo'', [CHR 0x27, CHR 0x27]),
                      (''apos'', [CHR 0x27])]"

definition handle_entityref :: "string \<Rightarrow> html_chunker \<Rightarrow> py_error + html_chunker" where
  "handle_entityref name s =
     (case entities name of
        Some text \<Rightarrow> handle_data text s
      | None \<Rightarrow> handle_data (''&'' @ name @ '';'') s)"

text \<open>The handler calls the tokenizer makes while it reads a document.\<close>

datatype event =
    StartTag string attrs
  | EndTag string
  | StartEndTag string attrs
  | Data string
  | CharRef string
  | EntityRef string

fun handle :: "event \<Rightarrow> html_chunker \<Rightarrow> py_error + html_chunker" where
  "handle (StartTag tag attrs) s = handle_starttag tag attrs s"
| "handle (EndTag tag) s = handle_endtag tag s"
| "handle (StartEndTag tag attrs) s = handle_startendtag tag attrs s"
| "handle (Data data) s = handle_data data s"
| "handle (CharRef name) s = handle_charref name s"
| "handle (EntityRef name) s = handle_entityref name s"

fun feed :: "event list \<Rightarrow> html_chunker \<Rightarrow> py_error + html_chunker" where
  "feed [] s = Inr s"
| "feed (e # es) s = bind_err (handle e s) (feed es)"

text \<open>\<open>chunk = HTMLChunker(); chunk.feed(mesg); chunk.close()\<close>, then \<open>chunk.rval\<close>.\<close>

definition chunk_html :: "event list \<Rightarrow> py_error + chunk list list" where
  "chunk_html events = bind_err (feed events HTMLChunker_init) (\<lambda>s. Inr (rval s))"

subsection \<open>An invariant of the parser state\<close>

text \<open>
  Both stacks hold an entry, and a paragraph has been opened whenever the next chunk is to
  continue one. Every handler keeps this, and on such a state only \<open>handle_charref\<close> can
  raise.
\<close>

definition chunker_inv :: "html_chunker \<Rightarrow> bool" where
  "chunker_inv s = (anchor_stack s \<noteq> [] \<and> style_stack s \<noteq> []
                    \<and> (\<not> at_para_start s \<longrightarrow> rval s \<noteq> []))"

lemma add_chunk_ok:
  assumes "at_para_start s \<or> rval s \<noteq> []" and "anchor_stack s \<noteq> []"
  shows "\<exists>s'. add_chunk c s = Inr s' \<and> anchor_stack s' = anchor_stack s
           \<and> style_stack s' = style_stack s \<and> list_stack s' = list_stack s
           \<and> in_style_or_script s' = in_style_or_script s
           \<and> \<not> at_para_start s' \<and> rval s' \<noteq> [] \<and> last (rval s') \<noteq> []
           \<and> last (last (rval s')) = c"
  using assms
  by (auto simp: add_chunk_def bind_err_def cur_url_def py_last_def append_to_last_def)

lemma end_para_ok:
  assumes "anchor_stack s \<noteq> []"
  shows "\<exists>s'. end_para s = Inr s' \<and> anchor_stack s' = anchor_stack s
           \<and> style_stack s' = style_stack s \<and> list_stack s' = list_stack s
           \<and> in_style_or_script s' = in_style_or_script s
           \<and> (\<not> at_para_start s' \<longrightarrow> rval s' \<noteq> [])"
proof (cases "list_stack s = []")
  case True
  then show ?thesis by (auto simp: end_para_def Let_def)
next
  case False
  define s2 where "s2 = (if at_para_start s then s\<lparr>rval := rval s @ [[]]\<rparr>
                else s\<lparr>at_para_start := True\<rparr>)\<lparr>trailing_space := False\<rparr>"
  have a: "at_para_start s2 \<or> rval s2 \<noteq> []" "anchor_stack s2 \<noteq> []"
    using assms by (auto simp: s2_def)
  have e: "end_para s = add_chunk
             (Chunk (Literal (replicate (3 * length (list_stack s2)) CHR '' '')) (last (anchor_stack s2))) s2"
    using False assms by (auto simp: end_para_def Let_def s2_def bind_err_def cur_url_def py_last_def)
  obtain s' where "add_chunk
       (Chunk (Literal (replicate (3 * length (list_stack s2)) CHR '' '')) (last (anchor_stack s2))) s2
         = Inr s'" "anchor_stack s' = anchor_stack s2" "style_stack s' = style_stack s2"
       "list_stack s' = list_stack s2" "in_style_or_script s' = in_style_or_script s2"
       "rval s' \<noteq> []"
    using add_chunk_ok [OF a] by blast
  then show ?thesis
    unfolding e by (auto simp: s2_def)
qed

lemma end_list_para_ok:
  assumes "chunker_inv s"
  shows "\<exists>s'. end_list_para s = Inr s' \<and> anchor_stack s' = anchor_stack s
           \<and> style_stack s' = style_stack s
           \<and> in_style_or_script s' = in_style_or_script s
           \<and> (\<not> at_para_start s' \<longrightarrow> rval s' \<noteq> [])"
proof -
  define s1 where "s1 = (if at_para_start s then s\<lparr>rval := rval s @ [[]]\<rparr> else s)"
  have a: "at_para_start s1 \<or> rval s1 \<noteq> []" "anchor_stack s1 \<noteq> []"
    using assms by (auto simp: s1_def chunker_inv_def)
  show ?thesis
  proof (cases "list_stack s1 = []")
    case True
    then have "end_list_para s = end_para s1"
      by (simp add: end_list_para_def s1_def Let_def)
    moreover obtain s' where "end_para s1 = Inr s'" "anchor_stack s' = anchor_stack s1"
        "style_stack s' = style_stack s1" "in_style_or_script s' = in_style_or_script s1"
        "\<not> at_para_start s' \<longrightarrow> rval s' \<noteq> []"
      using end_para_ok [OF a(2)] by blast
    ultimately show ?thesis by (auto simp: s1_def)
  next
    case False
    show ?thesis
    proof (cases "fst (last (list_stack s1)) = ''ul''")
      case True
      obtain c where "end_list_para s = add_chunk c s1"
        using False True a
        by (auto simp: end_list_para_def s1_def Let_def bind_err_def cur_url_def py_last_def)
      moreover obtain s' where "add_chunk c s1 = Inr s'" "anchor_stack s' = anchor_stack s1"
          "style_stack s' = style_stack s1" "in_style_or_script s' = in_style_or_script s1"
          "rval s' \<noteq> []"
        using add_chunk_ok [OF a, of c] by blast
      ultimately show ?thesis by (auto simp: s1_def)
    next
      case nul: False
      define s2 where "s2 = s1\<lparr>list_stack := butlast (list_stack s1)
             @ [(fst (last (list_stack s1)), snd (last (list_stack s1)) + 1)]\<rparr>"
      have b: "at_para_start s2 \<or> rval s2 \<noteq> []" "anchor_stack s2 \<noteq> []"
        using a by (auto simp: s2_def)
      obtain c where "end_list_para s = add_chunk c s2"
        using False nul a
        by (auto simp: end_list_para_def s1_def s2_def Let_def bind_err_def cur_url_def py_last_def)
      moreover obtain s' where "add_chunk c s2 = Inr s'" "anchor_stack s' = anchor_stack s2"
          "style_stack s' = style_stack s2" "in_style_or_script s' = in_style_or_script s2"
          "rval s' \<noteq> []"
        using add_chunk_ok [OF b, of c] by blast
      ultimately show ?thesis by (auto simp: s1_def s2_def)
    qed
  qed
qed

lemma handle_data_ok:
  assumes "chunker_inv s"
  shows "\<exists>s'. handle_data d s = Inr s' \<and> anchor_stack s' = anchor_stack s
           \<and> style_stack s' = style_stack s
           \<and> in_style_or_script s' = in_style_or_script s
           \<and> (\<not> at_para_start s' \<longrightarrow> rval s' \<noteq> [])"
proof (cases "in_style_or_script s")
  case True
  then show ?thesis using assms by (simp add: handle_data_def chunker_inv_def)
next
  case False
  define s1 where "s1 = (if d \<noteq> [] \<and> isspace (hd d) then s\<lparr>trailing_space := True\<rparr> else s)"
  have a: "at_para_start s1 \<or> rval s1 \<noteq> []" "anchor_stack s1 \<noteq> []" "style_stack s1 \<noteq> []"
    using assms by (auto simp: s1_def chunker_inv_def)
  obtain c where e: "handle_data d s = bind_err (add_chunk c s1)
       (\<lambda>s2. Inr (s2\<lparr>trailing_space := (d \<noteq> [] \<and> isspace (last d))\<rparr>))"
    using False a unfolding handle_data_def s1_def [symmetric] Let_def
    by (auto simp: bind_err_def cur_url_def py_last_def)
  obtain s' where "add_chunk c s1 = Inr s'" "anchor_stack s' = anchor_stack s1"
      "style_stack s' = style_stack s1" "in_style_or_script s' = in_style_or_script s1"
      "rval s' \<noteq> []"
    using add_chunk_ok [OF a(1,2), of c] by blast
  then show ?thesis
    unfolding e by (auto simp: bind_err_def s1_def)
qed


lemma handle_starttag_ok:
  assumes "chunker_inv s"
  shows "\<exists>s'. handle_starttag tag attrs s = Inr s' \<and> chunker_inv s'"
proof -
  have inv: "anchor_stack s \<noteq> []" "style_stack s \<noteq> []" "\<not> at_para_start s \<longrightarrow> rval s \<noteq> []"
    using assms by (simp_all add: chunker_inv_def)
  consider (a) "tag = ''a''"
    | (lst) "tag \<noteq> ''a''" "tag = ''ul'' \<or> tag = ''ol''"
    | (sty) "tag \<noteq> ''a''" "\<not> (tag = ''ul'' \<or> tag = ''ol'')" "tag_styles tag \<noteq> None"
    | (hdr) "tag \<noteq> ''a''" "\<not> (tag = ''ul'' \<or> tag = ''ol'')" "tag_styles tag = None"
        "isheadertag tag"
    | (par) "tag \<noteq> ''a''" "\<not> (tag = ''ul'' \<or> tag = ''ol'')" "tag_styles tag = None"
        "\<not> isheadertag tag" "tag = ''p'' \<or> tag = ''br''"
    | (img) "tag \<noteq> ''a''" "\<not> (tag = ''ul'' \<or> tag = ''ol'')" "tag_styles tag = None"
        "\<not> isheadertag tag" "\<not> (tag = ''p'' \<or> tag = ''br'')" "tag = ''img''"
    | (li) "tag \<noteq> ''a''" "\<not> (tag = ''ul'' \<or> tag = ''ol'')" "tag_styles tag = None"
        "\<not> isheadertag tag" "\<not> (tag = ''p'' \<or> tag = ''br'')" "tag \<noteq> ''img''" "tag = ''li''"
    | (other) "tag \<noteq> ''a''" "\<not> (tag = ''ul'' \<or> tag = ''ol'')" "tag_styles tag = None"
        "\<not> isheadertag tag" "\<not> (tag = ''p'' \<or> tag = ''br'')" "tag \<noteq> ''img''" "tag \<noteq> ''li''"
    by blast
  then show ?thesis
  proof cases
    case a
    then show ?thesis using inv by (simp add: handle_starttag_def chunker_inv_def)
  next
    case lst
    then have e: "handle_starttag tag attrs s = end_para (s\<lparr>list_stack := list_stack s @ [(tag, 1)]\<rparr>)"
      by (simp add: handle_starttag_def)
    obtain s' where "end_para (s\<lparr>list_stack := list_stack s @ [(tag, 1)]\<rparr>) = Inr s'"
        "anchor_stack s' = anchor_stack s" "style_stack s' = style_stack s"
        "\<not> at_para_start s' \<longrightarrow> rval s' \<noteq> []"
      using end_para_ok [of "s\<lparr>list_stack := list_stack s @ [(tag, 1)]\<rparr>"] inv by auto
    then show ?thesis unfolding e using inv by (simp add: chunker_inv_def)
  next
    case sty
    then show ?thesis using inv
      by (simp add: handle_starttag_def chunker_inv_def bind_err_def py_last_def)
  next
    case hdr
    then show ?thesis using inv
      by (simp add: handle_starttag_def chunker_inv_def bind_err_def py_last_def)
  next
    case par
    then have e: "handle_starttag tag attrs s = end_para s"
      by (simp add: handle_starttag_def)
    obtain s' where "end_para s = Inr s'"
        "anchor_stack s' = anchor_stack s" "style_stack s' = style_stack s"
        "\<not> at_para_start s' \<longrightarrow> rval s' \<noteq> []"
      using end_para_ok [of s] inv by auto
    then show ?thesis unfolding e using inv by (simp add: chunker_inv_def)
  next
    case img
    define alt where "alt = (case findattr attrs ''alt'' of None \<Rightarrow> ''[IMG]'' | Some a \<Rightarrow> a)"
    show ?thesis
    proof (cases "case findattr attrs ''src'' of None \<Rightarrow> None
                    | Some v \<Rightarrow> if \<not> starts_http v then None else Some v")
      case None
      then have e: "handle_starttag tag attrs s = handle_data alt s"
        using img by (simp add: handle_starttag_def alt_def tag_styles_def isheadertag_def)
      obtain s' where "handle_data alt s = Inr s'"
          "anchor_stack s' = anchor_stack s" "style_stack s' = style_stack s"
          "\<not> at_para_start s' \<longrightarrow> rval s' \<noteq> []"
        using handle_data_ok [OF assms, of alt] by auto
      then show ?thesis unfolding e using inv by (simp add: chunker_inv_def)
    next
      case (Some v)
      define s0 where "s0 = s\<lparr>anchor_stack := anchor_stack s @ [Some v]\<rparr>"
      have e: "handle_starttag tag attrs s = bind_err (handle_data alt s0)
                  (\<lambda>s1. Inr (s1\<lparr>anchor_stack := butlast (anchor_stack s1)\<rparr>))"
        using img Some by (simp add: handle_starttag_def alt_def s0_def tag_styles_def isheadertag_def)
      have "chunker_inv s0" using inv by (simp add: s0_def chunker_inv_def)
      then obtain s' where "handle_data alt s0 = Inr s'"
          "anchor_stack s' = anchor_stack s0" "style_stack s' = style_stack s0"
          "\<not> at_para_start s' \<longrightarrow> rval s' \<noteq> []"
        using handle_data_ok [of s0 alt] by auto
      then show ?thesis unfolding e using inv by (simp add: chunker_inv_def bind_err_def s0_def)
    qed
  next
    case li
    then have e: "handle_starttag tag attrs s = end_list_para s"
      by (simp add: handle_starttag_def tag_styles_def isheadertag_def)
    obtain s' where "end_list_para s = Inr s'"
        "anchor_stack s' = anchor_stack s" "style_stack s' = style_stack s"
        "\<not> at_para_start s' \<longrightarrow> rval s' \<noteq> []"
      using end_list_para_ok [OF assms] by auto
    then show ?thesis unfolding e using inv by (simp add: chunker_inv_def)
  next
    case other
    then show ?thesis using inv by (simp add: handle_starttag_def chunker_inv_def)
  qed
qed

lemma handle_endtag_ok:
  assumes "chunker_inv s"
  shows "\<exists>s'. handle_endtag tag s = Inr s' \<and> chunker_inv s'"
proof -
  have inv: "anchor_stack s \<noteq> []" "style_stack s \<noteq> []" "\<not> at_para_start s \<longrightarrow> rval s \<noteq> []"
    using assms by (simp_all add: chunker_inv_def)
  have pop: "length xs > 1 \<Longrightarrow> butlast xs \<noteq> []" for xs :: "'b list"
    by (cases xs rule: rev_cases) auto
  consider (a) "tag = ''a''"
    | (sty) "tag \<noteq> ''a''" "tag_styles tag \<noteq> None"
    | (lst) "tag \<noteq> ''a''" "tag_styles tag = None" "tag = ''ul'' \<or> tag = ''ol''"
    | (hdr) "tag \<noteq> ''a''" "tag_styles tag = None" "\<not> (tag = ''ul'' \<or> tag = ''ol'')"
        "isheadertag tag"
    | (other) "tag \<noteq> ''a''" "tag_styles tag = None" "\<not> (tag = ''ul'' \<or> tag = ''ol'')"
        "\<not> isheadertag tag"
    by blast
  then show ?thesis
  proof cases
    case a
    then show ?thesis using inv pop [of "anchor_stack s"]
      by (simp add: handle_endtag_def chunker_inv_def)
  next
    case sty
    then show ?thesis using inv pop [of "style_stack s"]
      by (simp add: handle_endtag_def chunker_inv_def)
  next
    case lst
    define s0 where "s0 = (if length (list_stack s) > 0
                     then s\<lparr>list_stack := butlast (list_stack s)\<rparr> else s)"
    have e: "handle_endtag tag s = end_para s0"
      using lst by (simp add: handle_endtag_def s0_def)
    have "anchor_stack s0 \<noteq> []" using inv by (simp add: s0_def)
    then obtain s' where "end_para s0 = Inr s'"
        "anchor_stack s' = anchor_stack s0" "style_stack s' = style_stack s0"
        "\<not> at_para_start s' \<longrightarrow> rval s' \<noteq> []"
      using end_para_ok [of s0] by blast
    then show ?thesis unfolding e using inv by (simp add: chunker_inv_def s0_def)
  next
    case hdr
    define s0 where "s0 = (if length (style_stack s) > 1
                     then s\<lparr>style_stack := butlast (style_stack s)\<rparr> else s)"
    have e: "handle_endtag tag s = end_para s0"
      using hdr by (simp add: handle_endtag_def s0_def)
    have "anchor_stack s0 \<noteq> []" using inv by (simp add: s0_def)
    then obtain s' where "end_para s0 = Inr s'"
        "anchor_stack s' = anchor_stack s0" "style_stack s' = style_stack s0"
        "\<not> at_para_start s' \<longrightarrow> rval s' \<noteq> []"
      using end_para_ok [of s0] by blast
    then show ?thesis unfolding e using inv pop [of "style_stack s"]
      by (simp add: chunker_inv_def s0_def)
  next
    case other
    then show ?thesis using inv by (simp add: handle_endtag_def chunker_inv_def)
  qed
qed

fun is_charref :: "event \<Rightarrow> bool" where
  "is_charref (CharRef name) = True"
| "is_charref e = False"

lemma handle_inv:
  assumes "chunker_inv s" and "handle e s = Inr s'"
  shows "chunker_inv s'"
proof (cases e)
  case (StartTag tag attrs)
  with handle_starttag_ok [OF assms(1), of tag attrs] assms(2) show ?thesis by auto
next
  case (EndTag tag)
  with handle_endtag_ok [OF assms(1), of tag] assms(2) show ?thesis by auto
next
  case (StartEndTag tag attrs)
  with handle_starttag_ok [OF assms(1), of tag attrs] assms show ?thesis
    by (auto simp: handle_startendtag_def split: if_splits)
next
  case (Data d)
  with handle_data_ok [OF assms(1), of d] assms show ?thesis
    by (auto simp: chunker_inv_def)
next
  case (CharRef name)
  then obtain d where "handle_data d s = Inr s'"
    using assms(2) by (auto simp: handle_charref_def split: if_splits option.splits)
  with handle_data_ok [OF assms(1), of d] assms(1) show ?thesis
    by (auto simp: chunker_inv_def)
next
  case (EntityRef name)
  then obtain d where "handle_data d s = Inr s'"
    using assms(2) by (auto simp: handle_entityref_def split: option.splits)
  with handle_data_ok [OF assms(1), of d] assms(1) show ?thesis
    by (auto simp: chunker_inv_def)
qed

lemma handle_ok:
  assumes "chunker_inv s" and "\<not> is_charref e"
  shows "\<exists>s'. handle e s = Inr s'"
proof (cases e)
  case (StartTag tag attrs)
  with handle_starttag_ok [OF assms(1), of tag attrs] show ?thesis by auto
next
  case (EndTag tag)
  with handle_endtag_ok [OF assms(1), of tag] show ?thesis by auto
next
  case (StartEndTag tag attrs)
  with handle_starttag_ok [OF assms(1), of tag attrs] show ?thesis
    by (auto simp: handle_startendtag_def)
next
  case (Data d)
  with handle_data_ok [OF assms(1), of d] show ?thesis by auto
next
  case (CharRef name)
  with assms(2) show ?thesis by simp
next
  case (EntityRef name)
  with handle_data_ok [OF assms(1)] show ?thesis
    by (auto simp: handle_entityref_def split: option.splits)
qed

lemma feed_inv: "chunker_inv s \<Longrightarrow> feed events s = Inr s' \<Longrightarrow> chunker_inv s'"
proof (induction events arbitrary: s)
  case Nil
  then show ?case by simp
next
  case (Cons e es)
  from Cons.prems(2) obtain s1 where s1: "handle e s = Inr s1" "feed es s1 = Inr s'"
    by (auto simp: bind_err_def split: sum.splits)
  from handle_inv [OF Cons.prems(1) s1(1)] have "chunker_inv s1" .
  from Cons.IH [OF this s1(2)] show ?case .
qed

lemma feed_ok:
  "chunker_inv s \<Longrightarrow> \<forall>e \<in> set events. \<not> is_charref e \<Longrightarrow> \<exists>s'. feed events s = Inr s'"
proof (induction events arbitrary: s)
  case Nil
  then show ?case by simp
next
  case (Cons e es)
  from handle_ok [OF Cons.prems(1), of e] Cons.prems(2)
  obtain s1 where s1: "handle e s = Inr s1" by auto
  from handle_inv [OF Cons.prems(1) s1] have "chunker_inv s1" .
  from Cons.IH [OF this] Cons.prems(2) obtain s' where "feed es s1 = Inr s'" by auto
  with s1 show ?case by (simp add: bind_err_def)
qed

lemma init_inv: "chunker_inv HTMLChunker_init"
  by (simp add: chunker_inv_def HTMLChunker_init_def)




subsection \<open>The tokenizer on character data\<close>














section \<open>The link grammar and the plain-text splitter\<close>

text \<open>
  The source matches with Python's \<open>re\<close>, a backtracking matcher, which is not part of this
  program. It is modelled for the constructs the default pattern uses: literal text,
  character classes, sequence, alternation, greedy repetition, groups and \<open>$\<close>. A match
  attempt returns every way the pattern can match from a position, in the order the
  backtracking matcher tries them, so the first one is the match Python reports. A state of
  the matcher is the position, the text from there on, and the groups captured so far
  (latest first) as \<open>(number, start, end)\<close>.
\<close>

datatype regex =
    Lit string
  | Cls "char \<Rightarrow> bool"
  | Seq regex regex
  | Alt regex regex
  | Star regex
  | Group nat string regex
  | Eol

text \<open>\<open>r?\<close> and \<open>r+\<close>, both greedy.\<close>

definition Opt :: "regex \<Rightarrow> regex" where
  "Opt r = Alt r (Lit [])"

definition Plus :: "regex \<Rightarrow> regex" where
  "Plus r = Seq r (Star r)"

type_synonym captures = "(nat \<times> nat \<times> nat) list"

type_synonym mstate = "nat \<times> string \<times> captures"

text \<open>
  \<open>r*\<close>: as many rounds of \<open>r\<close> as possible first, then fewer. A round that consumes nothing
  is not repeated. The count bounds the rounds by the length of the remaining text.
\<close>

fun star :: "(mstate \<Rightarrow> mstate list) \<Rightarrow> nat \<Rightarrow> mstate \<Rightarrow> mstate list" where
  "star step 0 st = [st]"
| "star step (Suc k) st =
     concat (map (\<lambda>st'. if fst st < fst st' then star step k st' else []) (step st)) @ [st]"

primrec matches :: "regex \<Rightarrow> mstate \<Rightarrow> mstate list" where
  "matches (Lit t) st =
     (case st of (n, rest, caps) \<Rightarrow>
        if take (length t) rest = t then [(n + length t, drop (length t) rest, caps)] else [])"
| "matches (Cls p) st =
     (case st of (n, rest, caps) \<Rightarrow>
        (case rest of [] \<Rightarrow> [] | c # cs \<Rightarrow> if p c then [(n + 1, cs, caps)] else []))"
| "matches (Seq a b) st = concat (map (matches b) (matches a st))"
| "matches (Alt a b) st = matches a st @ matches b st"
| "matches (Star r) st = star (matches r) (length (fst (snd st))) st"
| "matches (Group g name r) st =
     map (\<lambda>st'. (fst st', fst (snd st'), (g, fst st, fst st') # snd (snd st'))) (matches r st)"
| "matches Eol st =
     (case st of (n, rest, caps) \<Rightarrow>
        if rest = [] \<or> rest = [CHR 0x0A] then [st] else [])"

text \<open>
  The match at one position. After an empty match \<open>finditer\<close> asks for a match that is not
  empty at the same position (\<open>must_advance\<close>).
\<close>

definition first_match :: "regex \<Rightarrow> string \<Rightarrow> nat \<Rightarrow> bool \<Rightarrow> mstate option" where
  "first_match re rest pos must_advance =
     (case filter (\<lambda>st. \<not> (must_advance \<and> fst st = pos)) (matches re (pos, rest, [])) of
        [] \<Rightarrow> None
      | st # _ \<Rightarrow> Some st)"

text \<open>\<open>pattern.search\<close>: the first position, from \<open>pos\<close> on, where the pattern matches.\<close>

fun search :: "regex \<Rightarrow> string \<Rightarrow> nat \<Rightarrow> bool \<Rightarrow> (nat \<times> mstate) option" where
  "search re [] pos must_advance =
     (case first_match re [] pos must_advance of None \<Rightarrow> None | Some st \<Rightarrow> Some (pos, st))"
| "search re (c # cs) pos must_advance =
     (case first_match re (c # cs) pos must_advance of
        None \<Rightarrow> search re cs (pos + 1) False
      | Some st \<Rightarrow> Some (pos, st))"

text \<open>\<open>\w\<close> on code points below 256: letters, digits and the underscore.\<close>

definition word_char :: "char \<Rightarrow> bool" where
  "word_char c =
     (let n = (of_char c :: nat)
      in (48 \<le> n \<and> n \<le> 57) \<or> (65 \<le> n \<and> n \<le> 90) \<or> n = 95 \<or> (97 \<le> n \<and> n \<le> 122)
         \<or> n = 170 \<or> n = 178 \<or> n = 179 \<or> n = 181 \<or> n = 185 \<or> n = 186
         \<or> (188 \<le> n \<and> n \<le> 190) \<or> (192 \<le> n \<and> n \<le> 214) \<or> (216 \<le> n \<and> n \<le> 246)
         \<or> (248 \<le> n \<and> n \<le> 255))"


text \<open>Every result of a match lies \<open>k\<close> characters further on, within the text.\<close>

definition advances :: "mstate \<Rightarrow> mstate \<Rightarrow> bool" where
  "advances st st' =
     (\<exists>k \<le> length (fst (snd st)). fst st' = fst st + k \<and> fst (snd st') = drop k (fst (snd st)))"

lemma advances_refl: "advances st st"
  by (auto simp: advances_def intro: exI [of _ 0])

lemma advances_trans: "advances a b \<Longrightarrow> advances b c \<Longrightarrow> advances a c"
proof -
  assume "advances a b" "advances b c"
  then obtain k j where k: "k \<le> length (fst (snd a))" "fst b = fst a + k"
      "fst (snd b) = drop k (fst (snd a))"
    and j: "j \<le> length (fst (snd b))" "fst c = fst b + j" "fst (snd c) = drop j (fst (snd b))"
    by (auto simp: advances_def)
  have "k + j \<le> length (fst (snd a))" using k j by simp
  moreover have "fst c = fst a + (k + j)" using k j by simp
  moreover have "fst (snd c) = drop (k + j) (fst (snd a))" using k j by (simp add: add.commute)
  ultimately show ?thesis unfolding advances_def by blast
qed

lemma star_advances:
  assumes "\<And>x y. y \<in> set (step x) \<Longrightarrow> advances x y"
  shows "st' \<in> set (star step k st) \<Longrightarrow> advances st st'"
proof (induction k arbitrary: st)
  case 0
  then show ?case by (simp add: advances_refl)
next
  case (Suc k)
  from Suc.prems consider "st' = st"
    | x where "x \<in> set (step st)" "fst st < fst x" "st' \<in> set (star step k x)"
    by (auto split: if_splits)
  then show ?case
  proof cases
    case 1
    then show ?thesis by (simp add: advances_refl)
  next
    case 2
    from assms [OF 2(1)] Suc.IH [OF 2(3)] show ?thesis by (rule advances_trans)
  qed
qed

lemma matches_advances: "st' \<in> set (matches re st) \<Longrightarrow> advances st st'"
proof (induction re arbitrary: st st')
  case (Lit t)
  obtain n rest caps where st: "st = (n, rest, caps)" by (cases st)
  from Lit have m: "take (length t) rest = t" "st' = (n + length t, drop (length t) rest, caps)"
    by (auto simp: st split: if_splits)
  have "length (take (length t) rest) = length t" using m(1) by simp
  then have "length t \<le> length rest" by simp
  with m(2) show ?case unfolding advances_def st by auto
next
  case (Cls p)
  obtain n rest caps where st: "st = (n, rest, caps)" by (cases st)
  from Cls obtain c cs where "rest = c # cs" "st' = (n + 1, cs, caps)"
    by (auto simp: st split: list.splits if_splits)
  then show ?case unfolding advances_def st by (auto intro: exI [of _ 1])
next
  case (Seq a b)
  then obtain x where "x \<in> set (matches a st)" "st' \<in> set (matches b x)" by auto
  with Seq.IH show ?case by (blast intro: advances_trans)
next
  case (Alt a b)
  from Alt.prems consider "st' \<in> set (matches a st)" | "st' \<in> set (matches b st)" by auto
  then show ?case
  proof cases
    case 1
    then show ?thesis by (rule Alt.IH(1))
  next
    case 2
    then show ?thesis by (rule Alt.IH(2))
  qed
next
  case (Star r)
  from Star.prems have "st' \<in> set (star (matches r) (length (fst (snd st))) st)" by simp
  then show ?case using Star.IH by (rule star_advances [rotated])
next
  case (Group g name r)
  then obtain x where "x \<in> set (matches r st)" "fst st' = fst x" "fst (snd st') = fst (snd x)"
    by auto
  with Group.IH [of x st] show ?case by (simp add: advances_def)
next
  case Eol
  then have "st' = st" by (auto split: prod.splits if_splits)
  then show ?case by (simp add: advances_refl)
qed

lemma first_match_bounds:
  assumes "first_match re rest pos must_advance = Some st"
  shows "pos \<le> fst st \<and> fst st \<le> pos + length rest \<and> (must_advance \<longrightarrow> fst st \<noteq> pos)"
proof -
  from assms obtain xs where
    "filter (\<lambda>st. \<not> (must_advance \<and> fst st = pos)) (matches re (pos, rest, [])) = st # xs"
    by (auto simp: first_match_def split: list.splits)
  then have "st \<in> set (filter (\<lambda>st. \<not> (must_advance \<and> fst st = pos)) (matches re (pos, rest, [])))"
    by (metis list.set_intros(1))
  then have "st \<in> set (matches re (pos, rest, []))" "\<not> (must_advance \<and> fst st = pos)"
    by auto
  from matches_advances [OF this(1)] this(2) show ?thesis
    by (auto simp: advances_def)
qed

lemma search_bounds:
  "search re rest pos must_advance = Some (start, st) \<Longrightarrow>
   pos \<le> start \<and> start \<le> fst st \<and> fst st \<le> pos + length rest
   \<and> (must_advance \<longrightarrow> fst st \<noteq> pos)"
proof (induction rest arbitrary: pos must_advance)
  case Nil
  then have "first_match re [] pos must_advance = Some st" "start = pos"
    by (auto split: option.splits)
  with first_match_bounds [of re "[]" pos must_advance st] show ?case by simp
next
  case (Cons c cs)
  show ?case
  proof (cases "first_match re (c # cs) pos must_advance")
    case None
    with Cons.prems have "search re cs (pos + 1) False = Some (start, st)" by simp
    from Cons.IH [OF this] show ?thesis by simp
  next
    case (Some x)
    with Cons.prems have "x = st" "start = pos" by simp_all
    with Some first_match_bounds [of re "c # cs" pos must_advance st] show ?thesis by simp
  qed
qed

text \<open>A match object: where the match starts and ends, and the groups it captured.\<close>

type_synonym match = "nat \<times> nat \<times> captures"

function finditer_from :: "regex \<Rightarrow> string \<Rightarrow> nat \<Rightarrow> bool \<Rightarrow> match list" where
  "finditer_from re mesg pos must_advance =
     (case search re (drop pos mesg) pos must_advance of
        None \<Rightarrow> []
      | Some (start, st) \<Rightarrow>
          (start, fst st, snd (snd st)) # finditer_from re mesg (fst st) (fst st = start))"
  by pat_completeness auto
termination
proof (relation "measure (\<lambda>(re, mesg, pos, must_advance).
                   2 * (length mesg - pos) + (if must_advance then 0 else 1))", goal_cases)
  case 1
  show ?case by simp
next
  case (2 re mesg pos must_advance x start st)
  then have "search re (drop pos mesg) pos must_advance = Some (start, st)" by simp
  from search_bounds [OF this]
  have b: "pos \<le> start" "start \<le> fst st" "fst st \<le> pos + (length mesg - pos)"
    "must_advance \<longrightarrow> fst st \<noteq> pos"
    by simp_all
  show ?case
  proof (cases "fst st = pos")
    case True
    with b show ?thesis by auto
  next
    case False
    with b have "pos < fst st" "fst st \<le> length mesg" by auto
    then show ?thesis by auto
  qed
qed

declare finditer_from.simps [simp del]

definition finditer :: "regex \<Rightarrow> string \<Rightarrow> match list" where
  "finditer re mesg = finditer_from re mesg 0 False"


text \<open>The groups of a pattern, as \<open>(number, name)\<close>; an unnamed group has the empty name.\<close>

primrec groups :: "regex \<Rightarrow> (nat \<times> string) list" where
  "groups (Lit t) = []"
| "groups (Cls p) = []"
| "groups (Seq a b) = groups a @ groups b"
| "groups (Alt a b) = groups a @ groups b"
| "groups (Star r) = groups r"
| "groups (Group g name r) = (g, name) # groups r"
| "groups Eol = []"

text \<open>\<open>mesg[i:j]\<close> for \<open>0 \<le> i \<le> j\<close>\<close>

definition slice :: "string \<Rightarrow> nat \<Rightarrow> nat \<Rightarrow> string" where
  "slice mesg i j = take (j - i) (drop i mesg)"

text \<open>
  \<open>match.group(g)\<close>: group 0 is the whole match; a number the pattern does not have raises
  \<open>IndexError\<close>; a group that took no part in the match gives \<open>None\<close>.
\<close>

definition group_by_index :: "regex \<Rightarrow> string \<Rightarrow> match \<Rightarrow> nat \<Rightarrow> py_error + string option" where
  "group_by_index re mesg m g =
     (case m of (start, end, caps) \<Rightarrow>
        if g = 0 then Inr (Some (slice mesg start end))
        else if g \<notin> set (map fst (groups re)) then Inl IndexError
        else Inr (case map_of caps g of
                    None \<Rightarrow> None
                  | Some (i, j) \<Rightarrow> Some (slice mesg i j)))"

definition group_by_name :: "regex \<Rightarrow> string \<Rightarrow> match \<Rightarrow> string \<Rightarrow> py_error + string option" where
  "group_by_name re mesg m name =
     (case find (\<lambda>g. snd g = name) (groups re) of
        None \<Rightarrow> Inl IndexError
      | Some g \<Rightarrow> group_by_index re mesg m (fst g))"

subsection \<open>The default pattern \<open>URLRE\<close>\<close>

definition url_internal :: "char \<Rightarrow> bool" where
  "url_internal c = (word_char c \<or> c \<in> set (''{}()@/-%?!&.=:;+,#~'' @ [CHR 0x5C]))"

definition url_trailing :: "char \<Rightarrow> bool" where
  "url_trailing c = (word_char c \<or> c \<in> set ''{}(@/-%&=+#$'')"

definition label_char :: "char \<Rightarrow> bool" where
  "label_char c = (word_char c \<or> c \<in> set ''-%'')"

definition email_char :: "char \<Rightarrow> bool" where
  "email_char c = (word_char c \<or> c \<in> set ''-.'')"

definition email_last :: "char \<Rightarrow> bool" where
  "email_last c = (word_char c \<or> c = CHR ''-'')"

text \<open>\<open>(?:(https?|file|ftps?)://\<close> \<open>URLINTERNALPATTERN*\<close> \<open>URLTRAILINGPATTERN)\<close>; its group is the
  second of \<open>URLRE\<close>.\<close>

definition HTTPURLPATTERN :: regex where
  "HTTPURLPATTERN =
     Seq (Group 2 [] (Alt (Seq (Lit ''http'') (Opt (Lit ''s'')))
                       (Alt (Lit ''file'') (Seq (Lit ''ftp'') (Opt (Lit ''s''))))))
       (Seq (Lit ''://'') (Seq (Star (Cls url_internal)) (Cls url_trailing)))"

text \<open>\<open>'|'.join(TLDS)\<close> inside \<open>(?: )\<close>: one alternative per entry, in order; the empty pattern
  when there is none.\<close>

fun alternatives :: "regex list \<Rightarrow> regex" where
  "alternatives [] = Lit []"
| "alternatives [r] = r"
| "alternatives (r # rs) = Alt r (alternatives rs)"

text \<open>
  \<open>(?:[\w\-%]+(?:\.[\w\-%]+)*\.(?:\<close> TLDS \<open>)$)\<close>. The table \<open>TLDS\<close> is read from an asset that
  is not among the sources; it is a parameter, a list of entries that are plain text.
\<close>

definition GUESSEDURLPATTERN :: "string list \<Rightarrow> regex" where
  "GUESSEDURLPATTERN tlds =
     Seq (Plus (Cls label_char))
       (Seq (Star (Seq (Lit ''.'') (Plus (Cls label_char))))
          (Seq (Lit ''.'') (Seq (alternatives (map Lit tlds)) Eol)))"

text \<open>\<open>(?P<email>(mailto:)?[\w\-.]+@[\w\-.]*[\w\-])\<close>, the third and fourth groups.\<close>

definition EMAILPATTERN :: regex where
  "EMAILPATTERN =
     Group 3 ''email''
       (Seq (Opt (Group 4 [] (Lit ''mailto:'')))
          (Seq (Plus (Cls email_char))
             (Seq (Lit ''@'') (Seq (Star (Cls email_char)) (Cls email_last)))))"

text \<open>\<open>(?:<(?:URL:)?)?(\<close> HTTPURLPATTERN \<open>|\<close> GUESSEDURLPATTERN \<open>|\<close> email \<open>)>?\<close>\<close>

definition URLRE :: "string list \<Rightarrow> regex" where
  "URLRE tlds =
     Seq (Opt (Seq (Lit ''<'') (Opt (Lit ''URL:''))))
       (Seq (Group 1 [] (Alt HTTPURLPATTERN (Alt (GUESSEDURLPATTERN tlds) EMAILPATTERN)))
          (Opt (Lit ''>'')))"

subsection \<open>\<open>parse_text_urls\<close>\<close>

text \<open>\<open>"mailto" in email\<close>\<close>

fun occurs_in :: "string \<Rightarrow> string \<Rightarrow> bool" where
  "occurs_in t [] = (t = [])"
| "occurs_in t (c # cs) = (take (length t) (c # cs) = t \<or> occurs_in t cs)"

text \<open>
  The link chunk of one match. With a custom pattern it is \<open>Chunk(None, match.group(0))\<close>.
  Otherwise the group named \<open>email\<close> is read from the current matcher, which raises when
  that matcher has no such group.
\<close>

definition link_chunk :: "regex \<Rightarrow> bool \<Rightarrow> string \<Rightarrow> match \<Rightarrow> py_error + chunk" where
  "link_chunk re custom mesg m =
     (if custom
      then bind_err (group_by_index re mesg m 0) (\<lambda>g0. Inr (Chunk NoMarkup g0))
      else bind_err (group_by_name re mesg m ''email'') (\<lambda>email.
             if email \<noteq> None \<and> email \<noteq> Some [] \<and> \<not> occurs_in ''mailto'' (the email)
             then Inr (Chunk NoMarkup (Some (''mailto:'' @ the email)))
             else bind_err (group_by_index re mesg m 1) (\<lambda>g1. Inr (Chunk NoMarkup g1))))"

text \<open>The body of \<open>for match in URLRE.finditer(mesg)\<close> and the lines after the loop, from
  position \<open>loc\<close> on.\<close>

fun chunks_from :: "regex \<Rightarrow> bool \<Rightarrow> string \<Rightarrow> nat \<Rightarrow> match list \<Rightarrow> py_error + chunk list" where
  "chunks_from re custom mesg loc [] =
     Inr (if loc < length mesg then [Chunk (Literal (drop loc mesg)) None] else [])"
| "chunks_from re custom mesg loc (m # ms) =
     bind_err (link_chunk re custom mesg m) (\<lambda>link.
       bind_err (chunks_from re custom mesg (fst (snd m)) ms) (\<lambda>rest.
         Inr ((if loc < fst m then [Chunk (Literal (slice mesg loc (fst m))) None] else [])
              @ [link] @ rest)))"

text \<open>
  \<open>parse_text_urls(mesg, regex)\<close>. The module-level matcher \<open>URLRE\<close> is state: the function
  takes its current value and returns the new one with the result. The argument \<open>regex\<close> is
  \<open>None\<close> when the caller passes nothing, \<open>None\<close> or the empty string (all false in \<open>if
  regex\<close>), and otherwise the compiled custom pattern.
\<close>

definition parse_text_urls ::
  "string \<Rightarrow> regex option \<Rightarrow> regex \<Rightarrow> (py_error + chunk list) \<times> regex" where
  "parse_text_urls mesg regex urlre =
     (let urlre1 = (case regex of None \<Rightarrow> urlre | Some r \<Rightarrow> r)
      in (chunks_from urlre1 (regex \<noteq> None) mesg 0 (finditer urlre1 mesg), urlre1))"

text \<open>The entries of the table that the assertions in the source name.\<close>

definition asserted_tlds :: "string list" where
  "asserted_tlds = [''biz'', ''com'', ''edu'', ''info'', ''org'', ''smile'', ''zw'']"

subsection \<open>Bare domains at the end of a line\<close>

text \<open>
  A bare domain as text: labels joined by dots, then a dot and a table entry. Its parts are
  well formed when there is a label, every label is a non-empty run of the label characters
  \<open>[\w\-%]\<close>, and the last part is an entry of the table that consists of label characters.
\<close>

definition bare_domain :: "string list \<Rightarrow> string \<Rightarrow> string" where
  "bare_domain labels tld = join ''.'' labels @ ''.'' @ tld"

definition domain_parts :: "string list \<Rightarrow> string list \<Rightarrow> string \<Rightarrow> bool" where
  "domain_parts tlds labels tld =
     (labels \<noteq> [] \<and> list_all (\<lambda>l. l \<noteq> [] \<and> list_all label_char l) labels
      \<and> tld \<in> set tlds \<and> list_all label_char tld)"

lemma join_dots: "join ''.'' (l # ls) = l @ concat (map (\<lambda>x. ''.'' @ x) ls)"
  by (induction ls arbitrary: l) simp_all

lemma star_self: "st \<in> set (star step k st)"
  by (cases k) simp_all

lemma seq_mem:
  "x \<in> set (matches a st) \<Longrightarrow> y \<in> set (matches b x) \<Longrightarrow> y \<in> set (matches (Seq a b) st)"
  by auto

lemma star_step_mem:
  "x \<in> set (step st) \<Longrightarrow> fst st < fst x \<Longrightarrow> y \<in> set (star step k x) \<Longrightarrow>
   y \<in> set (star step (Suc k) st)"
  by auto

lemma cls_star_full:
  "list_all p cs \<Longrightarrow> length cs \<le> k \<Longrightarrow>
   (n + length cs, rest, caps) \<in> set (star (matches (Cls p)) k (n, cs @ rest, caps))"
proof (induction cs arbitrary: k n)
  case Nil
  then show ?case using star_self [of "(n, rest, caps)"] by simp
next
  case (Cons c cs)
  then obtain k' where k: "k = Suc k'" "length cs \<le> k'" by (cases k) auto
  from Cons.prems have p: "p c" "list_all p cs" by simp_all
  from Cons.IH [OF p(2) k(2), of "n + 1"]
  have "(n + 1 + length cs, rest, caps) \<in> set (star (matches (Cls p)) k' (n + 1, cs @ rest, caps))" .
  moreover have "matches (Cls p) (n, (c # cs) @ rest, caps) = [(n + 1, cs @ rest, caps)]"
    using p(1) by simp
  ultimately show ?case
    unfolding k(1) star.simps by (simp del: matches.simps)
qed

lemma plus_full:
  assumes "l \<noteq> []" and "list_all p l"
  shows "(n + length l, rest, caps) \<in> set (matches (Plus (Cls p)) (n, l @ rest, caps))"
proof -
  from assms obtain c cs where l: "l = c # cs" "p c" "list_all p cs" by (cases l) auto
  have "length cs \<le> length (cs @ rest)" by simp
  from cls_star_full [OF l(3) this, of "n + 1" rest caps]
  have "(n + 1 + length cs, rest, caps)
          \<in> set (matches (Star (Cls p)) (n + 1, cs @ rest, caps))"
    by (simp del: matches.simps(2))
  moreover have "(n + 1, cs @ rest, caps) \<in> set (matches (Cls p) (n, l @ rest, caps))"
    using l(1,2) by simp
  ultimately have "(n + 1 + length cs, rest, caps)
          \<in> set (matches (Seq (Cls p) (Star (Cls p))) (n, l @ rest, caps))"
    by (rule seq_mem [rotated])
  then show ?thesis by (simp add: Plus_def l(1) del: matches.simps)
qed

lemma dotlabel_full:
  assumes "l \<noteq> []" and "list_all label_char l"
  shows "(n + 1 + length l, rest, caps)
           \<in> set (matches (Seq (Lit ''.'') (Plus (Cls label_char))) (n, ''.'' @ l @ rest, caps))"
proof -
  have "(n + 1, l @ rest, caps) \<in> set (matches (Lit ''.'') (n, ''.'' @ l @ rest, caps))"
    by simp
  then show ?thesis
    using plus_full [OF assms, of "n + 1" rest caps] by (rule seq_mem)
qed

lemma labels_star_full:
  "list_all (\<lambda>l. l \<noteq> [] \<and> list_all label_char l) ls \<Longrightarrow> length ls \<le> k \<Longrightarrow>
   (n + length (concat (map (\<lambda>x. ''.'' @ x) ls)), rest, caps)
     \<in> set (star (matches (Seq (Lit ''.'') (Plus (Cls label_char)))) k
              (n, concat (map (\<lambda>x. ''.'' @ x) ls) @ rest, caps))"
proof (induction ls arbitrary: k n)
  case Nil
  then show ?case using star_self [of "(n, rest, caps)"] by simp
next
  case (Cons l ls)
  then obtain k' where k: "k = Suc k'" "length ls \<le> k'" by (cases k) auto
  from Cons.prems have p: "l \<noteq> []" "list_all label_char l"
      "list_all (\<lambda>l. l \<noteq> [] \<and> list_all label_char l) ls"
    by simp_all
  define tail where "tail = concat (map (\<lambda>x. ''.'' @ x) ls) @ rest"
  have step: "(n + 1 + length l, tail, caps)
           \<in> set (matches (Seq (Lit ''.'') (Plus (Cls label_char))) (n, ''.'' @ l @ tail, caps))"
    by (rule dotlabel_full [OF p(1,2)])
  have more: "(n + 1 + length l + length (concat (map (\<lambda>x. ''.'' @ x) ls)), rest, caps)
           \<in> set (star (matches (Seq (Lit ''.'') (Plus (Cls label_char)))) k'
                    (n + 1 + length l, tail, caps))"
    unfolding tail_def by (rule Cons.IH [OF p(3) k(2)])
  have whole: "concat (map (\<lambda>x. ''.'' @ x) (l # ls)) @ rest = ''.'' @ l @ tail"
    by (simp add: tail_def)
  have len: "n + length (concat (map (\<lambda>x. ''.'' @ x) (l # ls)))
           = n + 1 + length l + length (concat (map (\<lambda>x. ''.'' @ x) ls))"
    by simp
  have "(n + 1 + length l + length (concat (map (\<lambda>x. ''.'' @ x) ls)), rest, caps)
          \<in> set (star (matches (Seq (Lit ''.'') (Plus (Cls label_char)))) (Suc k')
                   (n, ''.'' @ l @ tail, caps))"
    by (rule star_step_mem [OF step _ more]) simp
  then show ?case
    unfolding whole len k(1) .
qed

lemma alternatives_mem:
  "r \<in> set rs \<Longrightarrow> x \<in> set (matches r st) \<Longrightarrow> x \<in> set (matches (alternatives rs) st)"
  by (induction rs rule: alternatives.induct) auto

lemma guessed_full:
  assumes "domain_parts tlds labels tld"
  shows "(n + length (bare_domain labels tld), [], caps)
           \<in> set (matches (GUESSEDURLPATTERN tlds) (n, bare_domain labels tld, caps))"
proof -
  from assms obtain l ls where lab: "labels = l # ls" "l \<noteq> []" "list_all label_char l"
      "list_all (\<lambda>l. l \<noteq> [] \<and> list_all label_char l) ls" and tld: "tld \<in> set tlds"
    by (cases labels) (auto simp: domain_parts_def)
  define mid where "mid = concat (map (\<lambda>x. ''.'' @ x) ls)"
  have dom: "bare_domain labels tld = l @ mid @ ''.'' @ tld"
    by (simp add: bare_domain_def lab(1) join_dots mid_def)
  have s1: "(n + length l, mid @ ''.'' @ tld, caps)
              \<in> set (matches (Plus (Cls label_char)) (n, l @ mid @ ''.'' @ tld, caps))"
    by (rule plus_full [OF lab(2,3)])
  have "length ls \<le> length (mid @ ''.'' @ tld)"
    unfolding mid_def using lab(4) by (induction ls) auto
  from labels_star_full [OF lab(4) this, of "n + length l" "''.'' @ tld" caps]
  have s2: "(n + length l + length mid, ''.'' @ tld, caps)
              \<in> set (matches (Star (Seq (Lit ''.'') (Plus (Cls label_char))))
                       (n + length l, mid @ ''.'' @ tld, caps))"
    by (simp add: mid_def)
  have s3: "(n + length l + length mid + 1, tld, caps)
              \<in> set (matches (Lit ''.'') (n + length l + length mid, ''.'' @ tld, caps))"
    by simp
  have "(n + length l + length mid + 1 + length tld, [], caps)
              \<in> set (matches (Lit tld) (n + length l + length mid + 1, tld, caps))"
    by simp
  then have s4: "(n + length l + length mid + 1 + length tld, [], caps)
              \<in> set (matches (alternatives (map Lit tlds)) (n + length l + length mid + 1, tld, caps))"
    using tld by (intro alternatives_mem [of "Lit tld"]) simp_all
  have s5: "(n + length l + length mid + 1 + length tld, [], caps)
              \<in> set (matches Eol (n + length l + length mid + 1 + length tld, [], caps))"
    by simp
  have r: "(n + length l + length mid + 1 + length tld, [], caps)
           \<in> set (matches (GUESSEDURLPATTERN tlds) (n, l @ mid @ ''.'' @ tld, caps))"
    unfolding GUESSEDURLPATTERN_def
    by (intro seq_mem [OF s1] seq_mem [OF s2] seq_mem [OF s3] seq_mem [OF s4] s5)
  have len: "n + length (l @ mid @ ''.'' @ tld) = n + length l + length mid + 1 + length tld"
    by simp
  show ?thesis
    unfolding dom len by (rule r)
qed


lemma star_keeps_captures:
  assumes "\<And>x y. y \<in> set (step x) \<Longrightarrow> snd (snd y) = snd (snd x)"
  shows "st' \<in> set (star step k st) \<Longrightarrow> snd (snd st') = snd (snd st)"
proof (induction k arbitrary: st)
  case 0
  then show ?case by simp
next
  case (Suc k)
  from Suc.prems consider "st' = st"
    | x where "x \<in> set (step st)" "st' \<in> set (star step k x)"
    by (auto split: if_splits)
  then show ?case
  proof cases
    case 1
    then show ?thesis by simp
  next
    case 2
    from assms [OF 2(1)] Suc.IH [OF 2(2)] show ?thesis by simp
  qed
qed

lemma no_group_keeps_captures:
  "groups re = [] \<Longrightarrow> st' \<in> set (matches re st) \<Longrightarrow> snd (snd st') = snd (snd st)"
proof (induction re arbitrary: st st')
  case (Lit t)
  then show ?case by (auto split: prod.splits if_splits)
next
  case (Cls p)
  then show ?case by (auto split: prod.splits list.splits if_splits)
next
  case (Seq a b)
  from Seq.prems obtain x where x: "x \<in> set (matches a st)" "st' \<in> set (matches b x)"
    and g: "groups a = []" "groups b = []"
    by auto
  from Seq.IH(1) [OF g(1) x(1)] Seq.IH(2) [OF g(2) x(2)] show ?case by simp
next
  case (Alt a b)
  from Alt.prems have g: "groups a = []" "groups b = []" by simp_all
  from Alt.prems consider "st' \<in> set (matches a st)" | "st' \<in> set (matches b st)" by auto
  then show ?case
  proof cases
    case 1
    from Alt.IH(1) [OF g(1) 1] show ?thesis .
  next
    case 2
    from Alt.IH(2) [OF g(2) 2] show ?thesis .
  qed
next
  case (Star r)
  from Star.prems have g: "groups r = []"
    and m: "st' \<in> set (star (matches r) (length (fst (snd st))) st)"
    by simp_all
  show ?case
    by (rule star_keeps_captures [OF _ m]) (rule Star.IH [OF g])
next
  case (Group g name r)
  then show ?case by simp
next
  case Eol
  then show ?case by (auto split: prod.splits if_splits)
qed

lemma groups_alternatives_Lit: "groups (alternatives (map Lit tlds)) = []"
  by (induction tlds rule: induct_list012) simp_all

lemma groups_GUESSEDURLPATTERN: "groups (GUESSEDURLPATTERN tlds) = []"
  by (simp add: GUESSEDURLPATTERN_def Plus_def groups_alternatives_Lit)

lemma guessed_ends_text:
  "st' \<in> set (matches (GUESSEDURLPATTERN tlds) st) \<Longrightarrow>
   fst (snd st') = [] \<or> fst (snd st') = [CHR 0x0A]"
  by (auto simp: GUESSEDURLPATTERN_def split: prod.splits if_splits)

lemma guessed_results:
  assumes "st' \<in> set (matches (GUESSEDURLPATTERN tlds) (n, dmn, caps))"
    and "CHR 0x0A \<notin> set dmn"
  shows "st' = (n + length dmn, [], caps)"
proof -
  from matches_advances [OF assms(1)] obtain k where
    k: "k \<le> length dmn" "fst st' = n + k" "fst (snd st') = drop k dmn"
    by (auto simp: advances_def)
  from guessed_ends_text [OF assms(1)] have "fst (snd st') = []"
  proof
    assume "fst (snd st') = [CHR 0x0A]"
    then have "CHR 0x0A \<in> set (drop k dmn)" using k(3) by simp
    then have "CHR 0x0A \<in> set dmn" by (rule in_set_dropD)
    with assms(2) show ?thesis by simp
  qed
  with k have "k = length dmn" by simp
  moreover have "snd (snd st') = caps"
    using no_group_keeps_captures [OF groups_GUESSEDURLPATTERN assms(1)] by simp
  ultimately show ?thesis using k(2) \<open>fst (snd st') = []\<close>
    by (cases st') auto
qed

lemma http_none:
  assumes "CHR '':'' \<notin> set rest"
  shows "matches HTTPURLPATTERN (n, rest, caps) = []"
proof -
  define scheme where "scheme = Group 2 [] (Alt (Seq (Lit ''http'') (Opt (Lit ''s'')))
                       (Alt (Lit ''file'') (Seq (Lit ''ftp'') (Opt (Lit ''s'')))))"
  define body where "body = Seq (Lit ''://'') (Seq (Star (Cls url_internal)) (Cls url_trailing))"
  have "matches body x = []" if "x \<in> set (matches scheme (n, rest, caps))" for x
  proof -
    from matches_advances [OF that] obtain k where "fst (snd x) = drop k rest"
      by (auto simp: advances_def)
    then have "CHR '':'' \<notin> set (fst (snd x))" using assms by (auto dest: in_set_dropD)
    then have "take (length ''://'') (fst (snd x)) \<noteq> ''://''"
      by (metis in_set_takeD list.set_intros(1))
    then have "matches (Lit ''://'') x = []"
      unfolding matches.simps by (cases x) (simp del: length_Cons list.size)
    then show ?thesis by (simp add: body_def)
  qed
  then have "concat (map (matches body) (matches scheme (n, rest, caps))) = []"
    by simp
  then show ?thesis
    by (simp add: HTTPURLPATTERN_def scheme_def body_def del: matches.simps(1,2,4,5,6))
qed


lemma set_join: "set (join sep ls) \<subseteq> set sep \<union> \<Union> (set ` set ls)"
  by (induction sep ls rule: join.induct) auto

lemma bare_domain_chars:
  assumes "domain_parts tlds labels tld" and "c \<in> set (bare_domain labels tld)"
  shows "label_char c \<or> c = CHR ''.''"
proof -
  from assms(2) consider "c \<in> set (join ''.'' labels)" | "c = CHR ''.''" | "c \<in> set tld"
    by (auto simp: bare_domain_def)
  then show ?thesis
  proof cases
    case 1
    with set_join [of "''.''" labels] consider "c = CHR ''.''" | l where "l \<in> set labels" "c \<in> set l"
      by auto
    then show ?thesis
    proof cases
      case 1
      then show ?thesis by simp
    next
      case 2
      with assms(1) show ?thesis by (auto simp: domain_parts_def list_all_iff)
    qed
  next
    case 2
    then show ?thesis by simp
  next
    case 3
    with assms(1) show ?thesis by (auto simp: domain_parts_def list_all_iff)
  qed
qed

lemma bare_domain_first:
  assumes "domain_parts tlds labels tld"
  shows "\<exists>c cs. bare_domain labels tld = c # cs \<and> label_char c"
proof -
  from assms obtain l ls where "labels = l # ls" "l \<noteq> []" "list_all label_char l"
    by (cases labels) (auto simp: domain_parts_def)
  then obtain c cs where "l = c # cs" "label_char c" by (cases l) auto
  with \<open>labels = l # ls\<close> show ?thesis by (simp add: bare_domain_def join_dots)
qed

lemma label_char_not_special:
  "\<not> label_char CHR '':''" "\<not> label_char CHR 0x0A" "\<not> label_char CHR ''<''"
  by (simp_all add: label_char_def word_char_def)

lemma urlre_head:
  assumes "domain_parts tlds labels tld"
  shows "\<exists>more. matches (URLRE tlds) (p, bare_domain labels tld, [])
           = (p + length (bare_domain labels tld), [],
              [(1, p, p + length (bare_domain labels tld))]) # more"
proof -
  define dmn where "dmn = bare_domain labels tld"
  define G where "G = GUESSEDURLPATTERN tlds"
  define E where "E = EMAILPATTERN"
  define H where "H = HTTPURLPATTERN"
  from bare_domain_first [OF assms] obtain c cs where c: "dmn = c # cs" "label_char c"
    unfolding dmn_def by blast
  have chars: "label_char x \<or> x = CHR ''.''" if "x \<in> set dmn" for x
    using bare_domain_chars [OF assms] that unfolding dmn_def by blast
  have nocolon: "CHR '':'' \<notin> set dmn" using chars label_char_not_special(1) by auto
  have nonl: "CHR 0x0A \<notin> set dmn" using chars label_char_not_special(2) by auto
  have nolt: "c \<noteq> CHR ''<''" using c(2) label_char_not_special(3) by auto
  have h: "matches H (p, dmn, []) = []"
    unfolding H_def by (rule http_none [OF nocolon])
  have "(p + length dmn, [], []) \<in> set (matches G (p, dmn, []))"
    unfolding G_def dmn_def by (rule guessed_full [OF assms])
  then obtain g gs where gs: "matches G (p, dmn, []) = g # gs"
    by (cases "matches G (p, dmn, [])") auto
  then have "g \<in> set (matches (GUESSEDURLPATTERN tlds) (p, dmn, []))"
    unfolding G_def by simp
  from guessed_results [OF this nonl] have g: "g = (p + length dmn, [], [])" .
  have pre: "matches (Opt (Seq (Lit ''<'') (Opt (Lit ''URL:'')))) (p, dmn, []) = [(p, dmn, [])]"
    using nolt by (simp add: Opt_def c(1))
  have "\<exists>more. matches (Seq (Group 1 [] (Alt H (Alt G E))) (Opt (Lit ''>''))) (p, dmn, [])
           = (p + length dmn, [], [(1, p, p + length dmn)]) # more"
    by (simp add: h gs g Opt_def)
  then have "\<exists>more. matches (Seq (Opt (Seq (Lit ''<'') (Opt (Lit ''URL:''))))
                        (Seq (Group 1 [] (Alt H (Alt G E))) (Opt (Lit ''>'')))) (p, dmn, [])
           = (p + length dmn, [], [(1, p, p + length dmn)]) # more"
    unfolding matches.simps(3) [of "Opt (Seq (Lit ''<'') (Opt (Lit ''URL:'')))"] pre by simp
  then show ?thesis
    unfolding URLRE_def dmn_def G_def E_def H_def .
qed

lemma urlre_first_match:
  assumes "domain_parts tlds labels tld"
  shows "first_match (URLRE tlds) (bare_domain labels tld) p False
           = Some (p + length (bare_domain labels tld), [],
                   [(1, p, p + length (bare_domain labels tld))])"
proof -
  from urlre_head [OF assms, of p] obtain more where
    "matches (URLRE tlds) (p, bare_domain labels tld, [])
           = (p + length (bare_domain labels tld), [],
              [(1, p, p + length (bare_domain labels tld))]) # more"
    by blast
  then show ?thesis by (simp add: first_match_def)
qed

lemma urlre_no_empty_match: "first_match (URLRE tlds) [] p must_advance = None"
  by (simp add: first_match_def URLRE_def HTTPURLPATTERN_def GUESSEDURLPATTERN_def
        EMAILPATTERN_def Opt_def Plus_def)

lemma search_skip:
  "(\<forall>q < length pre. first_match re (drop q pre @ rest) (pos + q) False = None) \<Longrightarrow>
   search re (pre @ rest) pos False = search re rest (pos + length pre) False"
proof (induction pre arbitrary: pos)
  case Nil
  then show ?case by simp
next
  case (Cons c cs)
  from Cons.prems have "first_match re (drop 0 (c # cs) @ rest) (pos + 0) False = None"
    by blast
  then have a: "first_match re (c # cs @ rest) pos False = None" by simp
  have "\<forall>q < length cs. first_match re (drop q cs @ rest) (pos + 1 + q) False = None"
  proof (intro allI impI)
    fix q
    assume "q < length cs"
    then have "Suc q < length (c # cs)" by simp
    with Cons.prems have "first_match re (drop (Suc q) (c # cs) @ rest) (pos + Suc q) False = None"
      by blast
    then show "first_match re (drop q cs @ rest) (pos + 1 + q) False = None" by simp
  qed
  from Cons.IH [OF this] show ?case using a by simp
qed

lemma groups_URLRE:
  "groups (URLRE tlds) = [(1, []), (2, []), (3, ''email''), (4, [])]"
  by (simp add: URLRE_def HTTPURLPATTERN_def GUESSEDURLPATTERN_def EMAILPATTERN_def Opt_def
        Plus_def groups_alternatives_Lit)

lemma finditer_domain_at_end:
  assumes "domain_parts tlds labels tld"
    and "\<forall>q < length pre. first_match (URLRE tlds) (drop q pre @ bare_domain labels tld) q False = None"
  shows "finditer (URLRE tlds) (pre @ bare_domain labels tld)
           = [(length pre, length pre + length (bare_domain labels tld),
               [(1, length pre, length pre + length (bare_domain labels tld))])]"
proof -
  define dmn where "dmn = bare_domain labels tld"
  define re where "re = URLRE tlds"
  from bare_domain_first [OF assms(1)] obtain c cs where c: "dmn = c # cs"
    unfolding dmn_def by blast
  have fm: "first_match re dmn (length pre) False
              = Some (length pre + length dmn, [], [(1, length pre, length pre + length dmn)])"
    unfolding re_def dmn_def by (rule urlre_first_match [OF assms(1)])
  have "\<forall>q < length pre. first_match re (drop q pre @ dmn) (0 + q) False = None"
    using assms(2) by (simp add: re_def dmn_def)
  from search_skip [OF this]
  have "search re (pre @ dmn) 0 False = search re dmn (length pre) False" by simp
  also have "\<dots> = Some (length pre, length pre + length dmn, [],
                          [(1, length pre, length pre + length dmn)])"
    using fm by (simp add: c)
  finally have s1: "search re (pre @ dmn) 0 False
      = Some (length pre, length pre + length dmn, [], [(1, length pre, length pre + length dmn)])"
    by simp
  have s2: "first_match re [] (length pre + length dmn) False = None"
    by (simp add: re_def urlre_no_empty_match)
  have ne: "dmn \<noteq> []" by (simp add: c)
  have "finditer_from re (pre @ dmn) (length pre + length dmn) False = []"
    by (subst finditer_from.simps) (simp add: s2)
  then have "finditer_from re (pre @ dmn) 0 False
      = [(length pre, length pre + length dmn, [(1, length pre, length pre + length dmn)])]"
    by (subst finditer_from.simps) (simp add: s1 ne)
  then show ?thesis
    unfolding finditer_def re_def dmn_def .
qed


lemma link_chunk_domain:
  "link_chunk (URLRE tlds) False (pre @ dmn)
      (length pre, length pre + length dmn, [(1, length pre, length pre + length dmn)])
     = Inr (Chunk NoMarkup (Some dmn))"
  by (simp add: link_chunk_def group_by_name_def group_by_index_def groups_URLRE slice_def
        bind_err_def)

lemma parse_domain_at_end:
  assumes "domain_parts tlds labels tld"
    and "\<forall>q < length pre. first_match (URLRE tlds) (drop q pre @ bare_domain labels tld) q False = None"
  shows "parse_text_urls (pre @ bare_domain labels tld) None (URLRE tlds)
           = (Inr ((if pre = [] then [] else [Chunk (Literal pre) None])
                   @ [Chunk NoMarkup (Some (bare_domain labels tld))]), URLRE tlds)"
proof -
  define dmn where "dmn = bare_domain labels tld"
  have f: "finditer (URLRE tlds) (pre @ dmn)
             = [(length pre, length pre + length dmn, [(1, length pre, length pre + length dmn)])]"
    unfolding dmn_def by (rule finditer_domain_at_end [OF assms])
  have l: "link_chunk (URLRE tlds) False (pre @ dmn)
             (length pre, length pre + length dmn, [(1, length pre, length pre + length dmn)])
           = Inr (Chunk NoMarkup (Some dmn))"
    by (rule link_chunk_domain)
  have "chunks_from (URLRE tlds) False (pre @ dmn) 0 (finditer (URLRE tlds) (pre @ dmn))
          = Inr ((if pre = [] then [] else [Chunk (Literal pre) None])
                 @ [Chunk NoMarkup (Some dmn)])"
    unfolding f chunks_from.simps l by (simp add: bind_err_def slice_def)
  then show ?thesis
    unfolding dmn_def by (simp add: parse_text_urls_def)
qed

section \<open>The claims\<close>

subsection \<open>Claims about the extractor\<close>

text \<open>
  C1. Five lines of which only the line at index 2 satisfies the predicate, with
  \<open>before_context = after_context = 1\<close>. The claim expects the single window \<open>[1, 4)\<close> with
  \<open>usedfirst = False\<close>. The code returns the single window \<open>[0, 4)\<close> with \<open>usedfirst = True\<close>:
  the first loop runs while \<open>length < before_context + 1\<close> with \<open>length\<close> starting at 0, so it
  takes two lines of leading context where \<open>before_context\<close> is 1. The lines are the numbers
  0 to 4 and the predicate holds of 2 only.
\<close>

theorem extract_with_context_five_lines:
  "extract_with_context [0, 1, 2, 3, 4 :: nat] (\<lambda>x. x = 2) 1 1 = [([0, 1, 2, 3], True, False)]"
  by code_simp

text \<open>
  C2. For every list of lines, every predicate and all context sizes (non-negative or not),
  each returned tuple is the slice \<open>lst[start : start + length]\<close> of a window with its two
  flags; every window is non-empty, lies inside the list and holds a line satisfying the
  predicate; the windows are in input order and pairwise disjoint (each ends no later than
  every later one begins); and every index whose line satisfies the predicate lies in
  exactly one window. Of the returned value itself: every returned slice is non-empty and
  holds a line satisfying the predicate, and the input list is the returned slices, in the
  order returned, interleaved with gaps (one before the first slice, one between two
  neighbours, one after the last) in which no line satisfies the predicate.
\<close>

theorem extract_with_context_partition:
  "extract_with_context lst pred before_context after_context
     = map (window_tuple lst) (windows_from lst pred before_context after_context 0)
   \<and> (\<forall>w \<in> set (windows_from lst pred before_context after_context 0).
         0 < snd w \<and> fst w + snd w \<le> length lst \<and> (\<exists>i. in_window w i \<and> pred (lst ! i)))
   \<and> (\<forall>j < length (windows_from lst pred before_context after_context 0). \<forall>k < j.
         fst (windows_from lst pred before_context after_context 0 ! k)
           + snd (windows_from lst pred before_context after_context 0 ! k)
         \<le> fst (windows_from lst pred before_context after_context 0 ! j))
   \<and> (\<forall>i < length lst. pred (lst ! i) \<longrightarrow>
         (\<exists>!k. k < length (windows_from lst pred before_context after_context 0)
               \<and> in_window (windows_from lst pred before_context after_context 0 ! k) i))
   \<and> (\<forall>t \<in> set (extract_with_context lst pred before_context after_context).
         fst t \<noteq> [] \<and> (\<exists>x \<in> set (fst t). pred x))
   \<and> (\<exists>gaps. length gaps = Suc (length (extract_with_context lst pred before_context after_context))
         \<and> (\<forall>g \<in> set gaps. \<forall>x \<in> set g. \<not> pred x)
         \<and> lst = weave gaps (map fst (extract_with_context lst pred before_context after_context)))"
proof -
  define ws where "ws = windows_from lst pred before_context after_context 0"
  define res where "res = extract_with_context lst pred before_context after_context"
  have cov: "covers_from lst pred 0 ws"
    unfolding ws_def by (rule windows_from_covers)
  have each: "\<forall>w \<in> set ws. 0 < snd w \<and> fst w + snd w \<le> length lst
                \<and> (\<exists>i. in_window w i \<and> pred (lst ! i))"
    using covers_from_each [OF cov] by blast
  have ord: "fst (ws ! k) + snd (ws ! k) \<le> fst (ws ! j)" if "j < length ws" "k < j" for j k
    using covers_from_ordered [OF cov that] .
  have uniq: "\<exists>!k. k < length ws \<and> in_window (ws ! k) i"
    if hi: "i < length lst" and hp: "pred (lst ! i)" for i
  proof -
    obtain k where k: "k < length ws" "in_window (ws ! k) i"
      using covers_from_hit [of lst pred 0 ws i] cov hi hp by blast
    have u: "k' = k" if k': "k' < length ws" "in_window (ws ! k') i" for k'
    proof (rule ccontr)
      assume "k' \<noteq> k"
      then consider "k' < k" | "k < k'" by linarith
      then show False
      proof cases
        case 1
        from ord [OF k(1) 1] k(2) k'(2) show False by (simp add: in_window_def)
      next
        case 2
        from ord [OF k'(1) 2] k(2) k'(2) show False by (simp add: in_window_def)
      qed
    qed
    show ?thesis
    proof (rule ex1I [of _ k])
      show "k < length ws \<and> in_window (ws ! k) i" using k by (intro conjI)
    next
      fix k'
      assume "k' < length ws \<and> in_window (ws ! k') i"
      then show "k' = k" using u [of k'] by (elim conjE)
    qed
  qed
  have first: "res = map (window_tuple lst) ws"
    by (simp add: extract_with_context_def ws_def res_def)
  have slices: "map fst res = map (\<lambda>w. take (snd w) (drop (fst w) lst)) ws"
    unfolding first by (simp add: window_tuple_def split_beta)
  have second: "\<forall>j < length ws. \<forall>k < j. fst (ws ! k) + snd (ws ! k) \<le> fst (ws ! j)"
    using ord by simp
  have third: "\<forall>i < length lst. pred (lst ! i) \<longrightarrow> (\<exists>!k. k < length ws \<and> in_window (ws ! k) i)"
    using uniq by simp
  have fourth: "\<forall>t \<in> set res. fst t \<noteq> [] \<and> (\<exists>x \<in> set (fst t). pred x)"
  proof
    fix t
    assume "t \<in> set res"
    then obtain w where w: "w \<in> set ws" "t = window_tuple lst w"
      unfolding first by auto
    from covers_from_slices [OF cov w(1)] show "fst t \<noteq> [] \<and> (\<exists>x \<in> set (fst t). pred x)"
      unfolding w(2) by (simp add: window_tuple_def split_beta)
  qed
  have fifth: "\<exists>gaps. length gaps = Suc (length res)
         \<and> (\<forall>g \<in> set gaps. \<forall>x \<in> set g. \<not> pred x)
         \<and> lst = weave gaps (map fst res)"
  proof -
    from covers_from_weave [OF cov] obtain gaps where
      "length gaps = Suc (length ws)" "\<forall>g \<in> set gaps. \<forall>x \<in> set g. \<not> pred x"
      "drop 0 lst = weave gaps (map (\<lambda>w. take (snd w) (drop (fst w) lst)) ws)"
      by blast
    then have "length gaps = Suc (length res) \<and> (\<forall>g \<in> set gaps. \<forall>x \<in> set g. \<not> pred x)
         \<and> lst = weave gaps (map fst res)"
      unfolding slices by (simp add: first)
    then show ?thesis by blast
  qed
  from first each second third fourth fifth show ?thesis
    unfolding ws_def res_def by (intro conjI)
qed

theorem extract_with_context_partition_witness:
  "(4, 4) \<in> set (windows_from [0, 1, 2, 3, 4, 5, 6, 7, 8, 9 :: nat] (\<lambda>x. x = 2 \<or> x = 6) 1 1 0)
   \<and> (1 :: nat) < length (windows_from [0, 1, 2, 3, 4, 5, 6, 7, 8, 9 :: nat] (\<lambda>x. x = 2 \<or> x = 6) 1 1 0)
   \<and> (0 :: nat) < 1
   \<and> (6 :: nat) < length [0, 1, 2, 3, 4, 5, 6, 7, 8, 9 :: nat]
   \<and> ([0, 1, 2, 3, 4, 5, 6, 7, 8, 9 :: nat] ! 6 = 2 \<or> [0, 1, 2, 3, 4, 5, 6, 7, 8, 9 :: nat] ! 6 = 6)
   \<and> ([4, 5, 6, 7], False, False)
        \<in> set (extract_with_context [0, 1, 2, 3, 4, 5, 6, 7, 8, 9 :: nat] (\<lambda>x. x = 2 \<or> x = 6) 1 1)
   \<and> (0 :: nat) < snd (4 :: nat, 4 :: nat)
   \<and> fst (4 :: nat, 4 :: nat) + snd (4 :: nat, 4 :: nat) \<le> length [0, 1, 2, 3, 4, 5, 6, 7, 8, 9 :: nat]
   \<and> (\<exists>i. in_window (4, 4) i
          \<and> ([0, 1, 2, 3, 4, 5, 6, 7, 8, 9 :: nat] ! i = 2 \<or> [0, 1, 2, 3, 4, 5, 6, 7, 8, 9 :: nat] ! i = 6))
   \<and> fst (windows_from [0, 1, 2, 3, 4, 5, 6, 7, 8, 9 :: nat] (\<lambda>x. x = 2 \<or> x = 6) 1 1 0 ! 0)
        + snd (windows_from [0, 1, 2, 3, 4, 5, 6, 7, 8, 9 :: nat] (\<lambda>x. x = 2 \<or> x = 6) 1 1 0 ! 0)
      \<le> fst (windows_from [0, 1, 2, 3, 4, 5, 6, 7, 8, 9 :: nat] (\<lambda>x. x = 2 \<or> x = 6) 1 1 0 ! 1)
   \<and> (\<exists>!k. k < length (windows_from [0, 1, 2, 3, 4, 5, 6, 7, 8, 9 :: nat] (\<lambda>x. x = 2 \<or> x = 6) 1 1 0)
            \<and> in_window (windows_from [0, 1, 2, 3, 4, 5, 6, 7, 8, 9 :: nat] (\<lambda>x. x = 2 \<or> x = 6) 1 1 0 ! k) 6)
   \<and> fst ([4, 5, 6, 7 :: nat], False, False) \<noteq> []
   \<and> (\<exists>x \<in> set (fst ([4, 5, 6, 7 :: nat], False, False)). x = 2 \<or> x = 6)
   \<and> (\<exists>gaps. length gaps
            = Suc (length (extract_with_context [0, 1, 2, 3, 4, 5, 6, 7, 8, 9 :: nat] (\<lambda>x. x = 2 \<or> x = 6) 1 1))
         \<and> (\<forall>g \<in> set gaps. \<forall>x \<in> set g. \<not> (x = 2 \<or> x = 6))
         \<and> [0, 1, 2, 3, 4, 5, 6, 7, 8, 9 :: nat]
             = weave gaps (map fst (extract_with_context [0, 1, 2, 3, 4, 5, 6, 7, 8, 9 :: nat] (\<lambda>x. x = 2 \<or> x = 6) 1 1)))"
proof -
  let ?lst = "[0, 1, 2, 3, 4, 5, 6, 7, 8, 9 :: nat]"
  let ?pred = "\<lambda>x :: nat. x = 2 \<or> x = 6"
  have w: "windows_from ?lst ?pred 1 1 0 = [(0, 4), (4, 4)]"
    by code_simp
  have r: "extract_with_context ?lst ?pred 1 1 = [([0, 1, 2, 3], True, False), ([4, 5, 6, 7], False, False)]"
    by code_simp
  have m: "(4, 4) \<in> set (windows_from ?lst ?pred 1 1 0)"
    unfolding w by simp
  have mr: "([4, 5, 6, 7], False, False) \<in> set (extract_with_context ?lst ?pred 1 1)"
    unfolding r by simp
  have j: "(1 :: nat) < length (windows_from ?lst ?pred 1 1 0)" "(0 :: nat) < 1"
    unfolding w by simp_all
  have h: "(6 :: nat) < length ?lst" "?lst ! 6 = 2 \<or> ?lst ! 6 = 6"
    by simp_all
  note t = extract_with_context_partition [of ?lst ?pred 1 1]
  note t2 = t [THEN conjunct2, THEN conjunct1]
  note t3 = t [THEN conjunct2, THEN conjunct2, THEN conjunct1]
  note t4 = t [THEN conjunct2, THEN conjunct2, THEN conjunct2, THEN conjunct1]
  note t5 = t [THEN conjunct2, THEN conjunct2, THEN conjunct2, THEN conjunct2, THEN conjunct1]
  note t6 = t [THEN conjunct2, THEN conjunct2, THEN conjunct2, THEN conjunct2, THEN conjunct2]
  have a: "(0 :: nat) < snd (4 :: nat, 4 :: nat)
      \<and> fst (4 :: nat, 4 :: nat) + snd (4 :: nat, 4 :: nat) \<le> length ?lst
      \<and> (\<exists>i. in_window (4, 4) i \<and> (?lst ! i = 2 \<or> ?lst ! i = 6))"
    by (rule bspec [OF t2 m])
  have o: "fst (windows_from ?lst ?pred 1 1 0 ! 0) + snd (windows_from ?lst ?pred 1 1 0 ! 0)
      \<le> fst (windows_from ?lst ?pred 1 1 0 ! 1)"
    by (rule t3 [rule_format, OF j])
  have b: "\<exists>!k. k < length (windows_from ?lst ?pred 1 1 0)
            \<and> in_window (windows_from ?lst ?pred 1 1 0 ! k) 6"
    by (rule t4 [rule_format, OF h])
  have c: "fst ([4, 5, 6, 7 :: nat], False, False) \<noteq> []
      \<and> (\<exists>x \<in> set (fst ([4, 5, 6, 7 :: nat], False, False)). x = 2 \<or> x = 6)"
    by (rule bspec [OF t5 mr])
  have d: "\<exists>gaps. length gaps = Suc (length (extract_with_context ?lst ?pred 1 1))
         \<and> (\<forall>g \<in> set gaps. \<forall>x \<in> set g. \<not> (x = 2 \<or> x = 6))
         \<and> ?lst = weave gaps (map fst (extract_with_context ?lst ?pred 1 1))"
    by (rule t6)
  note a1 = a [THEN conjunct1] and a2 = a [THEN conjunct2, THEN conjunct1]
    and a3 = a [THEN conjunct2, THEN conjunct2]
  note c1 = c [THEN conjunct1] and c2 = c [THEN conjunct2]
  show ?thesis
    by (intro conjI) (fact m j h mr a1 a2 a3 o b c1 c2 d)+
qed

subsection \<open>Claims about the HTML chunker\<close>




text \<open>
  C8, as stated, fails for header tags: with the style stack at its base, the end tag of a
  header still runs \<open>end_para\<close>, which here opens a paragraph, so the state changes.
\<close>

theorem header_endtag_counterexample:
  "isheadertag ''h1'' \<and> length (style_stack HTMLChunker_init) = 1
   \<and> handle_endtag ''h1'' HTMLChunker_init = Inr (HTMLChunker_init\<lparr>rval := [[]]\<rparr>)
   \<and> HTMLChunker_init\<lparr>rval := [[]]\<rparr> \<noteq> HTMLChunker_init"
  by (simp add: isheadertag_def isdigit_def HTMLChunker_init_def handle_endtag_def tag_styles_def
        end_para_def)

text \<open>
  C8, amended. After any sequence of events that the handlers complete, both stacks hold at
  least one entry, and a sequence with no character reference always completes. On a state
  the parser can be in, no end tag raises. An end tag \<open>a\<close>, \<open>b\<close> or \<open>i\<close> arriving while its stack
  is at its base changes nothing; an end tag of a header arriving while the style stack is
  at its base leaves the stacks, the list contexts and the style/script flag as they are and
  only ends the paragraph: it does exactly what \<open>end_para\<close> does, which, when no list is
  open, appends an empty paragraph if a paragraph was about to start and otherwise marks the
  paragraph start, and clears the trailing space.
\<close>

theorem chunker_stacks:
  "(feed events HTMLChunker_init = Inr s1 \<longrightarrow>
       1 \<le> length (anchor_stack s1) \<and> 1 \<le> length (style_stack s1) \<and> chunker_inv s1)
   \<and> ((\<forall>e \<in> set events. \<not> is_charref e) \<longrightarrow> (\<exists>s'. feed events HTMLChunker_init = Inr s'))
   \<and> (chunker_inv s \<longrightarrow> (\<exists>s'. handle_endtag tag s = Inr s' \<and> chunker_inv s'))
   \<and> (length (anchor_stack s) \<le> 1 \<longrightarrow> handle_endtag ''a'' s = Inr s)
   \<and> (length (style_stack s) \<le> 1 \<longrightarrow> handle_endtag ''b'' s = Inr s \<and> handle_endtag ''i'' s = Inr s)
   \<and> (isheadertag tag \<and> length (style_stack s) \<le> 1 \<and> chunker_inv s \<longrightarrow>
        (\<exists>s'. handle_endtag tag s = Inr s' \<and> style_stack s' = style_stack s
              \<and> anchor_stack s' = anchor_stack s \<and> list_stack s' = list_stack s
              \<and> in_style_or_script s' = in_style_or_script s))
   \<and> (isheadertag tag \<and> length (style_stack s) \<le> 1 \<longrightarrow> handle_endtag tag s = end_para s)
   \<and> (isheadertag tag \<and> length (style_stack s) \<le> 1 \<and> list_stack s = [] \<longrightarrow>
        handle_endtag tag s
          = Inr (if at_para_start s
                 then s\<lparr>rval := rval s @ [[]], trailing_space := False\<rparr>
                 else s\<lparr>at_para_start := True, trailing_space := False\<rparr>))"
proof (intro conjI impI)
  assume "feed events HTMLChunker_init = Inr s1"
  from feed_inv [OF init_inv this] show "chunker_inv s1" .
  then show "1 \<le> length (anchor_stack s1)" "1 \<le> length (style_stack s1)"
    by (simp_all add: chunker_inv_def Suc_le_eq)
next
  assume "\<forall>e \<in> set events. \<not> is_charref e"
  then show "\<exists>s'. feed events HTMLChunker_init = Inr s'"
    by (rule feed_ok [OF init_inv])
next
  assume "chunker_inv s"
  then show "\<exists>s'. handle_endtag tag s = Inr s' \<and> chunker_inv s'"
    by (rule handle_endtag_ok)
next
  assume "length (anchor_stack s) \<le> 1"
  then show "handle_endtag ''a'' s = Inr s" by (simp add: handle_endtag_def)
next
  assume a: "length (style_stack s) \<le> 1"
  then show "handle_endtag ''b'' s = Inr s" by (simp add: handle_endtag_def tag_styles_def)
  from a show "handle_endtag ''i'' s = Inr s" by (simp add: handle_endtag_def tag_styles_def)
next
  assume a: "isheadertag tag \<and> length (style_stack s) \<le> 1 \<and> chunker_inv s"
  then have t: "tag \<noteq> ''a''" "tag_styles tag = None" "\<not> (tag = ''ul'' \<or> tag = ''ol'')"
    by (auto simp: isheadertag_def isdigit_def tag_styles_def)
  have e: "handle_endtag tag s = end_para s"
    using a t by (simp add: handle_endtag_def)
  have "anchor_stack s \<noteq> []" using a by (simp add: chunker_inv_def)
  from end_para_ok [OF this]
  show "\<exists>s'. handle_endtag tag s = Inr s' \<and> style_stack s' = style_stack s
              \<and> anchor_stack s' = anchor_stack s \<and> list_stack s' = list_stack s
              \<and> in_style_or_script s' = in_style_or_script s"
    unfolding e by blast
next
  assume a: "isheadertag tag \<and> length (style_stack s) \<le> 1"
  then have t: "tag \<noteq> ''a''" "tag_styles tag = None" "\<not> (tag = ''ul'' \<or> tag = ''ol'')"
    by (auto simp: isheadertag_def isdigit_def tag_styles_def)
  show "handle_endtag tag s = end_para s"
    using a t by (simp add: handle_endtag_def)
next
  assume a: "isheadertag tag \<and> length (style_stack s) \<le> 1 \<and> list_stack s = []"
  then have t: "tag \<noteq> ''a''" "tag_styles tag = None" "\<not> (tag = ''ul'' \<or> tag = ''ol'')"
    by (auto simp: isheadertag_def isdigit_def tag_styles_def)
  have e: "handle_endtag tag s = end_para s"
    using a t by (simp add: handle_endtag_def)
  show "handle_endtag tag s
          = Inr (if at_para_start s
                 then s\<lparr>rval := rval s @ [[]], trailing_space := False\<rparr>
                 else s\<lparr>at_para_start := True, trailing_space := False\<rparr>)"
    unfolding e using a by (simp add: end_para_def Let_def)
qed

theorem chunker_stacks_witness:
  "feed [EndTag ''a'', EndTag ''b'', EndTag ''h1''] HTMLChunker_init
     = Inr (HTMLChunker_init\<lparr>rval := [[]]\<rparr>)
   \<and> \<not> is_charref (EndTag ''a'') \<and> \<not> is_charref (EndTag ''b'') \<and> \<not> is_charref (EndTag ''h1'')
   \<and> chunker_inv HTMLChunker_init
   \<and> length (anchor_stack HTMLChunker_init) \<le> 1
   \<and> length (style_stack HTMLChunker_init) \<le> 1
   \<and> isheadertag ''h1''
   \<and> list_stack HTMLChunker_init = []
   \<and> 1 \<le> length (anchor_stack (HTMLChunker_init\<lparr>rval := [[]]\<rparr>))
   \<and> 1 \<le> length (style_stack (HTMLChunker_init\<lparr>rval := [[]]\<rparr>))
   \<and> chunker_inv (HTMLChunker_init\<lparr>rval := [[]]\<rparr>)
   \<and> (\<exists>s'. feed [EndTag ''a'', EndTag ''b'', EndTag ''h1''] HTMLChunker_init = Inr s')
   \<and> (\<exists>s'. handle_endtag ''h1'' HTMLChunker_init = Inr s' \<and> chunker_inv s')
   \<and> handle_endtag ''a'' HTMLChunker_init = Inr HTMLChunker_init
   \<and> handle_endtag ''b'' HTMLChunker_init = Inr HTMLChunker_init
   \<and> handle_endtag ''i'' HTMLChunker_init = Inr HTMLChunker_init
   \<and> (\<exists>s'. handle_endtag ''h1'' HTMLChunker_init = Inr s'
         \<and> style_stack s' = style_stack HTMLChunker_init
         \<and> anchor_stack s' = anchor_stack HTMLChunker_init
         \<and> list_stack s' = list_stack HTMLChunker_init
         \<and> in_style_or_script s' = in_style_or_script HTMLChunker_init)
   \<and> handle_endtag ''h1'' HTMLChunker_init = end_para HTMLChunker_init
   \<and> handle_endtag ''h1'' HTMLChunker_init
       = Inr (if at_para_start HTMLChunker_init
              then HTMLChunker_init\<lparr>rval := rval HTMLChunker_init @ [[]], trailing_space := False\<rparr>
              else HTMLChunker_init\<lparr>at_para_start := True, trailing_space := False\<rparr>)"
proof -
  have f: "feed [EndTag ''a'', EndTag ''b'', EndTag ''h1''] HTMLChunker_init
             = Inr (HTMLChunker_init\<lparr>rval := [[]]\<rparr>)"
    by (simp add: bind_err_def handle_endtag_def tag_styles_def isheadertag_def isdigit_def
          HTMLChunker_init_def end_para_def)
  have n: "\<forall>e \<in> set [EndTag ''a'', EndTag ''b'', EndTag ''h1'']. \<not> is_charref e" by simp
  have n1: "\<not> is_charref (EndTag ''a'')" and n2: "\<not> is_charref (EndTag ''b'')"
    and n3: "\<not> is_charref (EndTag ''h1'')"
    by simp_all
  have i: "chunker_inv HTMLChunker_init" by (rule init_inv)
  have l1: "length (anchor_stack HTMLChunker_init) \<le> 1"
    and l2: "length (style_stack HTMLChunker_init) \<le> 1"
    and l3: "list_stack HTMLChunker_init = []"
    by (simp_all add: HTMLChunker_init_def)
  have h: "isheadertag ''h1''" by (simp add: isheadertag_def isdigit_def)
  note t = chunker_stacks [of "[EndTag ''a'', EndTag ''b'', EndTag ''h1'']"
              "HTMLChunker_init\<lparr>rval := [[]]\<rparr>" HTMLChunker_init "''h1''"]
  note c1 = t [THEN conjunct1, THEN mp, OF f]
  note c2 = t [THEN conjunct2, THEN conjunct1, THEN mp, OF n]
  note c3 = t [THEN conjunct2, THEN conjunct2, THEN conjunct1, THEN mp, OF i]
  note c4 = t [THEN conjunct2, THEN conjunct2, THEN conjunct2, THEN conjunct1, THEN mp, OF l1]
  note c5 = t [THEN conjunct2, THEN conjunct2, THEN conjunct2, THEN conjunct2, THEN conjunct1,
               THEN mp, OF l2]
  note c6 = t [THEN conjunct2, THEN conjunct2, THEN conjunct2, THEN conjunct2, THEN conjunct2,
               THEN conjunct1, THEN mp, OF conjI [OF h conjI [OF l2 i]]]
  note c7 = t [THEN conjunct2, THEN conjunct2, THEN conjunct2, THEN conjunct2, THEN conjunct2,
               THEN conjunct2, THEN conjunct1, THEN mp, OF conjI [OF h l2]]
  note c8 = t [THEN conjunct2, THEN conjunct2, THEN conjunct2, THEN conjunct2, THEN conjunct2,
               THEN conjunct2, THEN conjunct2, THEN mp, OF conjI [OF h conjI [OF l2 l3]]]
  note c1a = c1 [THEN conjunct1] and c1b = c1 [THEN conjunct2, THEN conjunct1]
    and c1c = c1 [THEN conjunct2, THEN conjunct2]
  note c5a = c5 [THEN conjunct1] and c5b = c5 [THEN conjunct2]
  show ?thesis
    by (intro conjI) (fact f n1 n2 n3 i l1 l2 l3 h c1a c1b c1c c2 c3 c4 c5a c5b c6 c7 c8)+
qed

text \<open>
  C9. The events of \<open><ol><li>x</li></ol>\<close> on a fresh chunker give two paragraphs, and the
  first has no chunk.
\<close>

theorem empty_paragraph_emitted:
  "chunk_html [StartTag ''ol'' [], StartTag ''li'' [], Data ''x'', EndTag ''li'', EndTag ''ol'']
     = Inr [[], [Chunk (Literal ''   '') None, Chunk (Literal '' 1.'') None,
                 Chunk (Styled ''msgtext'' ''x'') None]]"
  by code_simp





subsection \<open>Claims about the plain-text splitter\<close>

text \<open>
  C3, as stated, fails: after a call with the custom pattern \<open>zzz\<close>, a call with no pattern
  on \<open>http://a.com\<close> matches with \<open>zzz\<close> and returns the line as plain text, where the same
  call on the initial matcher returns a link.
\<close>

theorem custom_pattern_leaks_counterexample:
  "fst (parse_text_urls ''http://a.com'' None (URLRE asserted_tlds))
     = Inr [Chunk NoMarkup (Some ''http://a.com'')]
   \<and> fst (parse_text_urls ''http://a.com'' None
            (snd (parse_text_urls ''x'' (Some (Lit ''zzz'')) (URLRE asserted_tlds))))
     = Inr [Chunk (Literal ''http://a.com'') None]"
  by code_simp

text \<open>
  C3, amended. \<open>parse_text_urls\<close> keeps one piece of state between calls, the module-level
  matcher. A call with no pattern leaves the matcher as it is, so it does not change the
  result of a later call with no pattern. A call with a custom pattern \<open>r\<close> sets the matcher
  to \<open>r\<close>, and a later call with no pattern matches with \<open>r\<close>.
\<close>

theorem parse_text_urls_matcher_state:
  "snd (parse_text_urls m2 None urlre) = urlre
   \<and> parse_text_urls m None (snd (parse_text_urls m2 None urlre)) = parse_text_urls m None urlre
   \<and> snd (parse_text_urls m2 (Some r) urlre) = r
   \<and> parse_text_urls m None (snd (parse_text_urls m2 (Some r) urlre)) = parse_text_urls m None r"
  by (simp add: parse_text_urls_def)

text \<open>
  C4, as stated, fails: the guessed-domain alternative ends in \<open>$\<close>, so in
  \<open>linuxtoday.com is down\<close> the domain is not a match and the line is one plain chunk.
\<close>

theorem bare_domain_not_at_end_counterexample:
  "fst (parse_text_urls ''linuxtoday.com is down'' None (URLRE asserted_tlds))
     = Inr [Chunk (Literal ''linuxtoday.com is down'') None]"
  by code_simp

text \<open>
  C4, amended. A bare domain is recognised only where it ends the text. Every match of the
  guessed-domain alternative, for any table and from any position, ends at the end of the
  text or just before a final newline. For a line that ends with a bare domain (labels of
  label characters, then a table entry of label characters) and in which the default
  pattern matches at no position before the domain, the result is the text before the
  domain as one plain chunk (none when the domain starts the line) followed by one link
  chunk whose url is the domain.
\<close>

theorem bare_domain_at_end_only:
  "(\<forall>st' \<in> set (matches (GUESSEDURLPATTERN tlds) st).
       fst (snd st') = [] \<or> fst (snd st') = [CHR 0x0A])
   \<and> (domain_parts tlds labels tld
        \<and> (\<forall>q < length pre.
              first_match (URLRE tlds) (drop q pre @ bare_domain labels tld) q False = None)
       \<longrightarrow> parse_text_urls (pre @ bare_domain labels tld) None (URLRE tlds)
             = (Inr ((if pre = [] then [] else [Chunk (Literal pre) None])
                     @ [Chunk NoMarkup (Some (bare_domain labels tld))]), URLRE tlds))"
proof (intro conjI impI)
  show "\<forall>st' \<in> set (matches (GUESSEDURLPATTERN tlds) st).
          fst (snd st') = [] \<or> fst (snd st') = [CHR 0x0A]"
    by (auto simp: GUESSEDURLPATTERN_def split: prod.splits if_splits)
next
  assume "domain_parts tlds labels tld
        \<and> (\<forall>q < length pre.
              first_match (URLRE tlds) (drop q pre @ bare_domain labels tld) q False = None)"
  then show "parse_text_urls (pre @ bare_domain labels tld) None (URLRE tlds)
             = (Inr ((if pre = [] then [] else [Chunk (Literal pre) None])
                     @ [Chunk NoMarkup (Some (bare_domain labels tld))]), URLRE tlds)"
    using parse_domain_at_end by blast
qed

theorem bare_domain_at_end_only_witness:
  "(14, [], []) \<in> set (matches (GUESSEDURLPATTERN asserted_tlds) (0, ''linuxtoday.com'', []))
   \<and> (fst (snd (14 :: nat, [] :: string, [] :: captures)) = []
        \<or> fst (snd (14 :: nat, [] :: string, [] :: captures)) = [CHR 0x0A])
   \<and> domain_parts asserted_tlds [''linuxtoday''] ''com''
   \<and> bare_domain [''linuxtoday''] ''com'' = ''linuxtoday.com''
   \<and> first_match (URLRE asserted_tlds) ''see linuxtoday.com'' 0 False = None
   \<and> first_match (URLRE asserted_tlds) ''ee linuxtoday.com'' 1 False = None
   \<and> first_match (URLRE asserted_tlds) ''e linuxtoday.com'' 2 False = None
   \<and> first_match (URLRE asserted_tlds) '' linuxtoday.com'' 3 False = None
   \<and> parse_text_urls ''see linuxtoday.com'' None (URLRE asserted_tlds)
       = (Inr [Chunk (Literal ''see '') None, Chunk NoMarkup (Some ''linuxtoday.com'')],
          URLRE asserted_tlds)"
proof -
  note t = bare_domain_at_end_only [of asserted_tlds "(0, ''linuxtoday.com'', [])"
             "[''linuxtoday'']" "''com''" "''see ''"]
  have m: "(14, [], []) \<in> set (matches (GUESSEDURLPATTERN asserted_tlds) (0, ''linuxtoday.com'', []))"
    by code_simp
  from t [THEN conjunct1] m
  have e: "fst (snd (14 :: nat, [] :: string, [] :: captures)) = []
        \<or> fst (snd (14 :: nat, [] :: string, [] :: captures)) = [CHR 0x0A]"
    by (rule bspec)
  have d: "domain_parts asserted_tlds [''linuxtoday''] ''com''"
    by code_simp
  have b: "bare_domain [''linuxtoday''] ''com'' = ''linuxtoday.com''"
    by code_simp
  have f0: "first_match (URLRE asserted_tlds) ''see linuxtoday.com'' 0 False = None"
    by code_simp
  have f1: "first_match (URLRE asserted_tlds) ''ee linuxtoday.com'' 1 False = None"
    by code_simp
  have f2: "first_match (URLRE asserted_tlds) ''e linuxtoday.com'' 2 False = None"
    by code_simp
  have f3: "first_match (URLRE asserted_tlds) '' linuxtoday.com'' 3 False = None"
    by code_simp
  have q: "\<forall>q < length ''see ''.
              first_match (URLRE asserted_tlds)
                (drop q ''see '' @ bare_domain [''linuxtoday''] ''com'') q False = None"
  proof (intro allI impI)
    fix q :: nat
    assume "q < length ''see ''"
    then consider "q = 0" | "q = 1" | "q = 2" | "q = 3" by fastforce
    then show "first_match (URLRE asserted_tlds)
                (drop q ''see '' @ bare_domain [''linuxtoday''] ''com'') q False = None"
      by cases (simp_all add: b f0 f1 [unfolded One_nat_def] f2 f3)
  qed
  from t [THEN conjunct2, THEN mp, OF conjI, OF d q]
  have p: "parse_text_urls ''see linuxtoday.com'' None (URLRE asserted_tlds)
       = (Inr [Chunk (Literal ''see '') None, Chunk NoMarkup (Some ''linuxtoday.com'')],
          URLRE asserted_tlds)"
    by (simp add: b)
  show ?thesis by (intro conjI) (fact m e d b f0 f1 f2 f3 p)+
qed

text \<open>
  C5. The two inputs the claim names give the url \<open>mailto:foo@bar.com\<close>. The general claim
  fails on the code: the test is \<open>"mailto" not in email\<close>, a substring test, so the email
  match \<open>foo@mailto.org\<close>, which has no \<open>mailto:\<close> prefix, is returned without one.
\<close>

theorem email_mailto_examples:
  "fst (parse_text_urls ''foo@mailto.org'' None (URLRE asserted_tlds))
     = Inr [Chunk NoMarkup (Some ''foo@mailto.org'')]
   \<and> fst (parse_text_urls ''foo@bar.com'' None (URLRE asserted_tlds))
     = Inr [Chunk NoMarkup (Some ''mailto:foo@bar.com'')]
   \<and> fst (parse_text_urls ''mailto:foo@bar.com'' None (URLRE asserted_tlds))
     = Inr [Chunk NoMarkup (Some ''mailto:foo@bar.com'')]"
  by code_simp

text \<open>
  C7, as stated, fails on the empty line: no match is found and no chunk is returned
  (\<open>if loc < len(mesg)\<close> is false).
\<close>

theorem empty_line_counterexample:
  "finditer (URLRE asserted_tlds) [] = []
   \<and> fst (parse_text_urls [] None (URLRE asserted_tlds)) = Inr []"
  by code_simp

text \<open>
  C7, amended. For every line in which the current matcher finds no match, a call with no
  pattern returns exactly one chunk, the line unchanged with no url, when the line is not
  empty, and no chunk when it is empty; the matcher is left as it is.
\<close>

theorem parse_text_urls_no_match:
  "finditer urlre mesg = [] \<Longrightarrow>
   parse_text_urls mesg None urlre
     = (Inr (if mesg = [] then [] else [Chunk (Literal mesg) None]), urlre)"
  by (simp add: parse_text_urls_def)

theorem parse_text_urls_no_match_witness:
  "finditer (URLRE asserted_tlds) ''hello world'' = []
   \<and> parse_text_urls ''hello world'' None (URLRE asserted_tlds)
       = (Inr [Chunk (Literal ''hello world'') None], URLRE asserted_tlds)"
proof -
  have f: "finditer (URLRE asserted_tlds) ''hello world'' = []"
    by code_simp
  from parse_text_urls_no_match [OF f] f show ?thesis by simp
qed

end
